theory Spec2Isabelle
  imports Main "HOL-Library.Sublist"
begin

section \<open>JavaScript strings and the process environment\<close>

text \<open>
  A JavaScript string is a sequence of UTF-16 code units. A code unit is modelled as a
  natural number (every code unit is below 65536; the theorems below hold for all lists
  of naturals, hence for all JavaScript strings). \<open>js\<close> embeds an ASCII literal of the
  source.
\<close>

type_synonym jstring = "nat list"

definition js :: "string \<Rightarrow> jstring" where
  "js s = map of_char s"

text \<open>
  The characters that \<open>String.prototype.trim\<close> removes and that the regular-expression
  class \<open>\s\<close> matches (ECMAScript WhiteSpace and LineTerminator): TAB, LF, VT, FF, CR,
  SP, NBSP, U+1680, U+2000 to U+200A, U+2028, U+2029, U+202F, U+205F, U+3000, U+FEFF.
\<close>

definition is_space :: "nat \<Rightarrow> bool" where
  "is_space c = (c = 9 \<or> c = 10 \<or> c = 11 \<or> c = 12 \<or> c = 13 \<or> c = 32 \<or> c = 160 \<or>
     c = 5760 \<or> (8192 \<le> c \<and> c \<le> 8202) \<or> c = 8232 \<or> c = 8233 \<or> c = 8239 \<or>
     c = 8287 \<or> c = 12288 \<or> c = 65279)"

text \<open>The characters the regular-expression dot does not match: LF, CR, U+2028, U+2029.\<close>

definition is_line_terminator :: "nat \<Rightarrow> bool" where
  "is_line_terminator c = (c = 10 \<or> c = 13 \<or> c = 8232 \<or> c = 8233)"

definition trim :: "jstring \<Rightarrow> jstring" where
  "trim s = rev (dropWhile is_space (rev (dropWhile is_space s)))"

definition startsWith :: "jstring \<Rightarrow> jstring \<Rightarrow> bool" where
  "startsWith s p = (take (length p) s = p)"

definition endsWith :: "jstring \<Rightarrow> jstring \<Rightarrow> bool" where
  "endsWith s p = (length p \<le> length s \<and> drop (length s - length p) s = p)"

text \<open>
  The environment of the process is a map from the names of the variables that are set
  to their values. Names are compared as they are written, as on a POSIX system. A read
  of a fixed name such as \<open>process.env.DATABASE_URL\<close> is a lookup in this map:
  \<open>undefined\<close> (modelled as \<open>None\<close>) when the variable is not set. A condition
  \<open>if (x)\<close> or \<open>!x\<close> on such a read tests truthiness: \<open>undefined\<close> and the empty
  string are falsy. Reads and writes of \<open>process.env[key]\<close> with a name that comes from
  a file go through \<open>env_is_truthy\<close> and \<open>env_assign\<close> below.
\<close>

type_synonym env = "jstring \<rightharpoonup> jstring"

fun truthy :: "jstring option \<Rightarrow> bool" where
  "truthy None = False"
| "truthy (Some s) = (s \<noteq> [])"

definition DATABASE_URL :: jstring where
  "DATABASE_URL = js ''DATABASE_URL''"

definition DATABASE_PROVIDER :: jstring where
  "DATABASE_PROVIDER = js ''DATABASE_PROVIDER''"

definition DIRECT_URL :: jstring where
  "DIRECT_URL = js ''DIRECT_URL''"

definition APPDATA :: jstring where
  "APPDATA = js ''APPDATA''"

section \<open>Provider detection\<close>

text \<open>
  \<open>getDatabaseProvider\<close> of \<open>prisma-env.cjs\<close> (lines 63 to 71):
  \<^verbatim>\<open>
  const databaseUrl = process.env.DATABASE_URL;
  if (databaseUrl && databaseUrl.startsWith('postgresql://')) return 'postgresql';
  return 'sqlite';
  \<close>
\<close>

definition getDatabaseProvider :: "env \<Rightarrow> jstring" where
  "getDatabaseProvider e =
     (let databaseUrl = e DATABASE_URL in
      if truthy databaseUrl \<and> (case databaseUrl of None \<Rightarrow> False
            | Some u \<Rightarrow> startsWith u (js ''postgresql://''))
      then js ''postgresql'' else js ''sqlite'')"

text \<open>The function of the same name in \<open>generate-schema.cjs\<close> (lines 44 to 52).\<close>

definition getDatabaseProvider_schema :: "env \<Rightarrow> jstring" where
  "getDatabaseProvider_schema e =
     (let databaseUrl = e DATABASE_URL in
      if truthy databaseUrl \<and> (case databaseUrl of None \<Rightarrow> False
            | Some u \<Rightarrow> startsWith u (js ''postgresql://''))
      then js ''postgresql'' else js ''sqlite'')"

text \<open>
  \<open>isCloudMode\<close> of the postinstall script returns the value of
  \<open>databaseUrl && databaseUrl.startsWith('postgresql://')\<close>, which is \<open>undefined\<close>, the
  empty string or a boolean; its caller tests the truthiness of that value.
\<close>

datatype jsval = JUndefined | JString jstring | JBool bool

fun toBoolean :: "jsval \<Rightarrow> bool" where
  "toBoolean JUndefined = False"
| "toBoolean (JString s) = (s \<noteq> [])"
| "toBoolean (JBool b) = b"

definition isCloudMode :: "env \<Rightarrow> jsval" where
  "isCloudMode e =
     (case e DATABASE_URL of
        None \<Rightarrow> JUndefined
      | Some u \<Rightarrow> if u = [] then JString u else JBool (startsWith u (js ''postgresql://'')))"

section \<open>EnvLoader\<close>

text \<open>
  \<open>split_on sep s\<close> is \<open>s.split(sep)\<close> for a one-character separator: the pieces
  between the separators, the empty string giving one empty piece.
\<close>

fun split_on :: "nat \<Rightarrow> jstring \<Rightarrow> jstring list" where
  "split_on sep [] = [[]]"
| "split_on sep (c # s) =
     (if c = sep then [] # split_on sep s
      else (case split_on sep s of [] \<Rightarrow> [[c]] | l # ls \<Rightarrow> (c # l) # ls))"

text \<open>
  \<open>line.match(/^([^=]+)=(.*)$/)\<close>. The class \<open>[^=]\<close> cannot cross an equals sign, so the
  first group is the whole text before the first \<open>=\<close> and must be non-empty; the dot
  matches no line terminator, so the text after that \<open>=\<close> must be free of them for
  \<open>$\<close> to be reached. The result is the pair of the two groups.
\<close>

definition match_assignment :: "jstring \<Rightarrow> (jstring \<times> jstring) option" where
  "match_assignment line =
     (let k = takeWhile (\<lambda>c. c \<noteq> 61) line; r = dropWhile (\<lambda>c. c \<noteq> 61) line in
      if k = [] then None
      else (case r of
              [] \<Rightarrow> None
            | _ # v \<Rightarrow> if list_ex is_line_terminator v then None else Some (k, v)))"

text \<open>
  The quote removal: when the value starts and ends with a double quote (34), or starts
  and ends with a single quote (39), \<open>value.slice(1, -1)\<close>.
\<close>

definition strip_quotes :: "jstring \<Rightarrow> jstring" where
  "strip_quotes v =
     (if (startsWith v [34] \<and> endsWith v [34]) \<or> (startsWith v [39] \<and> endsWith v [39])
      then take (length v - 2) (drop 1 v) else v)"

text \<open>
  The body of the \<open>forEach\<close> callback: what one line of the file does to the environment.
  It returns the line's key and value when the line is an assignment.
\<close>

definition parse_line :: "jstring \<Rightarrow> (jstring \<times> jstring) option" where
  "parse_line line =
     (if line = [] \<or> startsWith (trim line) (js ''#'') then None
      else (case match_assignment line of
              None \<Rightarrow> None
            | Some (k, v) \<Rightarrow> Some (trim k, strip_quotes (trim v))))"

text \<open>
  \<open>process.env[key]\<close> for a computed name. Node hands names and values to the operating
  system as C strings, which end at the first NUL character (code unit 0):
  \<^item> a read looks up the name cut at its first NUL; the empty name is never found; when
    no variable is found the read falls through to the properties that \<open>process.env\<close>
    inherits from \<open>Object.prototype\<close>, whose values (functions, and the prototype itself
    for \<open>__proto__\<close>) are truthy;
  \<^item> an assignment sets the variable named by the name cut at its first NUL to the
    value cut at its first NUL; it does nothing when that name is empty or contains an
    equals sign (\<open>setenv\<close> fails and Node drops the error).
  Strings are stored as UTF-8; the strings of these scripts come from text decoded from
  UTF-8, which the conversion gives back unchanged.
\<close>

definition c_string :: "jstring \<Rightarrow> jstring" where
  "c_string s = takeWhile (\<lambda>c. c \<noteq> 0) s"

definition inherited_names :: "jstring list" where
  "inherited_names =
     [js ''constructor'', js ''__defineGetter__'', js ''__defineSetter__'',
      js ''hasOwnProperty'', js ''__lookupGetter__'', js ''__lookupSetter__'',
      js ''isPrototypeOf'', js ''propertyIsEnumerable'', js ''toString'', js ''valueOf'',
      js ''__proto__'', js ''toLocaleString'']"

definition env_is_truthy :: "env \<Rightarrow> jstring \<Rightarrow> bool" where
  "env_is_truthy e key =
     (let name = c_string key in
      case (if name = [] then None else e name) of
        Some v \<Rightarrow> v \<noteq> []
      | None \<Rightarrow> key \<in> set inherited_names)"

definition env_assign :: "env \<Rightarrow> jstring \<Rightarrow> jstring \<Rightarrow> env" where
  "env_assign e key val =
     (let name = c_string key in
      if name = [] \<or> 61 \<in> set name then e else e(name \<mapsto> c_string val))"

definition load_line :: "env \<Rightarrow> jstring \<Rightarrow> env" where
  "load_line e line =
     (case parse_line line of
        None \<Rightarrow> e
      | Some (key, val) \<Rightarrow> if \<not> env_is_truthy e key then env_assign e key val else e)"

text \<open>
  \<open>loadEnvFile\<close>, which \<open>prisma-env.cjs\<close>, \<open>generate-schema.cjs\<close> and the postinstall
  script each carry with the same body. The first argument is the content of the
  \<open>.env\<close> file, \<open>None\<close> when \<open>fs.existsSync\<close> says the file is absent (a file that
  exists is taken to be readable).
\<close>

definition loadEnvFile :: "jstring option \<Rightarrow> env \<Rightarrow> env" where
  "loadEnvFile file e =
     (case file of
        None \<Rightarrow> e
      | Some envContent \<Rightarrow> foldl load_line e (split_on 10 envContent))"

text \<open>
  The values that the lines \<open>ls\<close> assign to the variable \<open>name\<close>, in order and as they
  would be stored: a line assigns to \<open>name\<close> when its key, cut at its first NUL, is
  \<open>name\<close>. Then the values the file assigns to it, and the first non-empty one of a
  list of values (the empty string when there is none).
\<close>

definition assigned_in :: "jstring list \<Rightarrow> jstring \<Rightarrow> jstring list" where
  "assigned_in ls name =
     map (\<lambda>kv. c_string (snd kv))
       (filter (\<lambda>kv. c_string (fst kv) = name) (List.map_filter parse_line ls))"

definition assigned :: "jstring \<Rightarrow> jstring \<Rightarrow> jstring list" where
  "assigned envContent key = assigned_in (split_on 10 envContent) key"

definition first_nonempty :: "jstring list \<Rightarrow> jstring" where
  "first_nonempty vs = (case filter (\<lambda>v. v \<noteq> []) vs of [] \<Rightarrow> [] | v # _ \<Rightarrow> v)"

section \<open>PathResolver and EnvConfigurator\<close>

text \<open>
  Node's \<open>path.posix.join\<close>: the non-empty arguments joined with a slash, then
  normalised. Normalisation drops empty and \<open>.\<close> segments and resolves \<open>..\<close> against
  the segment before it; \<open>norm_step\<close> keeps the segments in reverse order.
\<close>

fun join_with :: "jstring \<Rightarrow> jstring list \<Rightarrow> jstring" where
  "join_with sep [] = []"
| "join_with sep [x] = x"
| "join_with sep (x # y # xs) = x @ sep @ join_with sep (y # xs)"

definition norm_step :: "bool \<Rightarrow> jstring list \<Rightarrow> jstring \<Rightarrow> jstring list" where
  "norm_step allowAboveRoot acc seg =
     (if seg = [] \<or> seg = js ''.'' then acc
      else if seg = js ''..'' then
        (case acc of
           [] \<Rightarrow> if allowAboveRoot then [seg] else []
         | a # rest \<Rightarrow> if a \<noteq> js ''..'' then rest
                      else if allowAboveRoot then seg # acc else acc)
      else seg # acc)"

definition normalizeString :: "jstring \<Rightarrow> bool \<Rightarrow> jstring" where
  "normalizeString p allowAboveRoot =
     join_with (js ''/'') (rev (foldl (norm_step allowAboveRoot) [] (split_on 47 p)))"

definition posix_normalize :: "jstring \<Rightarrow> jstring" where
  "posix_normalize p =
     (if p = [] then js ''.''
      else
        let isAbsolute = (hd p = 47);
            trailingSeparator = (last p = 47);
            q = normalizeString p (\<not> isAbsolute)
        in if q = [] then (if isAbsolute then js ''/''
                           else if trailingSeparator then js ''./'' else js ''.'')
           else
             let q' = (if trailingSeparator then q @ js ''/'' else q)
             in if isAbsolute then js ''/'' @ q' else q')"

definition posix_join :: "jstring list \<Rightarrow> jstring" where
  "posix_join args =
     (let parts = filter (\<lambda>a. a \<noteq> []) args in
      if parts = [] then js ''.'' else posix_normalize (join_with (js ''/'') parts))"

text \<open>
  What the scripts read from outside the process environment: \<open>process.platform\<close>,
  \<open>os.homedir()\<close>, the platform's \<open>path.join\<close> (\<open>posix_join\<close> on a POSIX system), the
  content of the \<open>.env\<close> file, which directories exist, whether \<open>fs.mkdirSync\<close>
  succeeds on a path, and how a command run by \<open>execSync\<close> ends. \<open>exec w n c e\<close> is the
  end of the \<open>n\<close>-th call of \<open>execSync\<close>, on command \<open>c\<close> with environment \<open>e\<close>:
  it returns, or it throws an error whose \<open>status\<close> is a number or absent.
\<close>

datatype exec_result = Exec_ok | Exec_error "int option"

record world =
  platform :: jstring
  homedir :: jstring
  path_join :: "jstring list \<Rightarrow> jstring"
  env_file :: "jstring option"
  existsSync :: "jstring \<Rightarrow> bool"
  mkdir_succeeds :: "jstring \<Rightarrow> bool"
  exec :: "nat \<Rightarrow> jstring \<Rightarrow> env \<Rightarrow> exec_result"

datatype error = MkdirError jstring

definition getDatabaseDirectory :: "world \<Rightarrow> env \<Rightarrow> jstring" where
  "getDatabaseDirectory w e =
     (let userDataPath =
        (if platform w = js ''darwin'' then
           path_join w [homedir w, js ''Library'', js ''Application Support'', js ''OnlyLabs'']
         else if platform w = js ''win32'' then
           path_join w
             [(case e APPDATA of
                 None \<Rightarrow> path_join w [homedir w, js ''AppData'', js ''Roaming'']
               | Some a \<Rightarrow> if a \<noteq> [] then a
                           else path_join w [homedir w, js ''AppData'', js ''Roaming'']),
              js ''OnlyLabs'']
         else path_join w [homedir w, js ''.config'', js ''OnlyLabs''])
      in path_join w [userDataPath, js ''database''])"

text \<open>
  The second half of \<open>configureDatabaseEnv\<close> (lines 88 to 95): the provider variable
  and the mirroring of the primary connection string. Assigning \<open>undefined\<close> to a
  variable of \<open>process.env\<close> stores the string \<open>undefined\<close>.
\<close>

definition set_provider_and_direct :: "env \<Rightarrow> env" where
  "set_provider_and_direct e =
     (let e1 = e(DATABASE_PROVIDER \<mapsto> getDatabaseProvider e) in
      if \<not> truthy (e1 DIRECT_URL) \<and> getDatabaseProvider e1 = js ''postgresql''
      then e1(DIRECT_URL \<mapsto> (case e1 DATABASE_URL of None \<Rightarrow> js ''undefined'' | Some u \<Rightarrow> u))
      else e1)"

text \<open>
  \<open>configureDatabaseEnv\<close> (lines 74 to 96). \<open>fs.mkdirSync\<close> is the one call that can
  throw; the exception is not caught and ends the function.
\<close>

definition configureDatabaseEnv :: "world \<Rightarrow> env \<Rightarrow> error + env" where
  "configureDatabaseEnv w e =
     (if \<not> truthy (e DATABASE_URL) then
        (let dbDir = getDatabaseDirectory w e in
         if \<not> existsSync w dbDir \<and> \<not> mkdir_succeeds w dbDir then Inl (MkdirError dbDir)
         else
           let dbPath = path_join w [dbDir, js ''dev.db'']
           in Inr (set_provider_and_direct (e(DATABASE_URL \<mapsto> js ''file:'' @ dbPath))))
      else Inr (set_provider_and_direct e))"

section \<open>ToolInvoker\<close>

text \<open>
  The top level of \<open>prisma-env.cjs\<close>, from the call of \<open>loadEnvFile\<close> (line 43) to the
  end. The arguments are \<open>process.argv.slice(2)\<close>. The result records the exit code of
  the process, the commands given to \<open>execSync\<close> in order, the lines written by
  \<open>console.error\<close>, and the exception that ended the script when one was not caught
  (Node then exits with code 1).
\<close>

record outcome =
  exit_code :: int
  spawned :: "jstring list"
  errors :: "jstring list"
  uncaught :: "error option"

definition exit_status :: "int option \<Rightarrow> int" where
  "exit_status st = (case st of None \<Rightarrow> 1 | Some n \<Rightarrow> if n \<noteq> 0 then n else 1)"

definition prisma_env :: "world \<Rightarrow> env \<Rightarrow> jstring list \<Rightarrow> outcome" where
  "prisma_env w e0 args =
     (let e = loadEnvFile (env_file w) e0;
          command = join_with (js '' '') args
      in if command = [] then
           \<lparr>exit_code = 1, spawned = [],
            errors = [js ''Usage: node prisma-env.js <prisma command>'',
                      js ''Example: node prisma-env.js \"prisma generate && prisma db push\"''],
            uncaught = None\<rparr>
         else
           (case configureDatabaseEnv w e of
              Inl err \<Rightarrow> \<lparr>exit_code = 1, spawned = [], errors = [], uncaught = Some err\<rparr>
            | Inr e1 \<Rightarrow>
                (case exec w 0 (js ''node generate-schema.cjs'') e1 of
                   Exec_error st \<Rightarrow>
                     \<lparr>exit_code = 1, spawned = [js ''node generate-schema.cjs''],
                      errors = [js ''Failed to generate schema''], uncaught = None\<rparr>
                 | Exec_ok \<Rightarrow>
                     (case exec w 1 command e1 of
                        Exec_ok \<Rightarrow>
                          \<lparr>exit_code = 0, spawned = [js ''node generate-schema.cjs'', command],
                           errors = [], uncaught = None\<rparr>
                      | Exec_error st \<Rightarrow>
                          \<lparr>exit_code = exit_status st,
                           spawned = [js ''node generate-schema.cjs'', command],
                           errors = [], uncaught = None\<rparr>))))"

section \<open>SchemaGenerator\<close>

text \<open>
  The four regular expressions of \<open>generate-schema.cjs\<close> are sequences of literal
  text, \<open>\s*\<close> and one alternation of literals. \<open>match_pat p s\<close> matches such a
  sequence at the start of \<open>s\<close> the way a backtracking matcher does, and returns the
  text after the match: \<open>\s*\<close> is greedy (it first takes one more white-space character
  and gives it back when the rest of the pattern then fails), and an alternation tries
  its literals from left to right.
\<close>

datatype item = Lit jstring | Ws | Alt "jstring list"

fun strip_prefix :: "jstring \<Rightarrow> jstring \<Rightarrow> jstring option" where
  "strip_prefix [] s = Some s"
| "strip_prefix (p # ps) [] = None"
| "strip_prefix (p # ps) (c # s) = (if p = c then strip_prefix ps s else None)"

fun item_weight :: "item \<Rightarrow> nat" where
  "item_weight (Lit l) = 1"
| "item_weight Ws = 1"
| "item_weight (Alt ls) = Suc (length ls)"

function match_pat :: "item list \<Rightarrow> jstring \<Rightarrow> jstring option" where
  "match_pat [] s = Some s"
| "match_pat (Lit l # p) s =
     (case strip_prefix l s of None \<Rightarrow> None | Some r \<Rightarrow> match_pat p r)"
| "match_pat (Ws # p) [] = match_pat p []"
| "match_pat (Ws # p) (c # s) =
     (if is_space c then
        (case match_pat (Ws # p) s of Some r \<Rightarrow> Some r | None \<Rightarrow> match_pat p (c # s))
      else match_pat p (c # s))"
| "match_pat (Alt [] # p) s = None"
| "match_pat (Alt (l # ls) # p) s =
     (case (case strip_prefix l s of None \<Rightarrow> None | Some r \<Rightarrow> match_pat p r) of
        Some r \<Rightarrow> Some r
      | None \<Rightarrow> match_pat (Alt ls # p) s)"
  by pat_completeness auto
termination
  by (relation "measures [\<lambda>(p, s). sum_list (map item_weight p), \<lambda>(p, s). length s]") auto

text \<open>
  The same patterns read as languages, without a matching order: \<open>matches p w\<close> says
  that the whole of \<open>w\<close> is matched by the pattern \<open>p\<close>.
\<close>

inductive matches :: "item list \<Rightarrow> jstring \<Rightarrow> bool" where
  matches_Nil: "matches [] []"
| matches_Lit: "matches p w \<Longrightarrow> matches (Lit l # p) (l @ w)"
| matches_Ws: "matches p w \<Longrightarrow> list_all is_space ws \<Longrightarrow> matches (Ws # p) (ws @ w)"
| matches_Alt: "matches p w \<Longrightarrow> l \<in> set ls \<Longrightarrow> matches (Alt ls # p) (l @ w)"

text \<open>
  \<open>s.replace(re, r)\<close> for a regular expression without the global flag: the leftmost
  match is replaced by \<open>r\<close>, and \<open>s\<close> is returned as it is when there is none. (The
  replacement strings of the script contain no dollar sign, so they are inserted as
  they are.)
\<close>

fun replace_first :: "item list \<Rightarrow> jstring \<Rightarrow> jstring \<Rightarrow> jstring" where
  "replace_first p r [] = (case match_pat p [] of None \<Rightarrow> [] | Some rest \<Rightarrow> r @ rest)"
| "replace_first p r (c # s) =
     (case match_pat p (c # s) of None \<Rightarrow> c # replace_first p r s | Some rest \<Rightarrow> r @ rest)"

text \<open>
  \<open>s.replace(re, r)\<close> with the global flag: every match is replaced, the search going on
  where the last match ended (one character further after an empty match).
\<close>

fun replace_all :: "item list \<Rightarrow> jstring \<Rightarrow> jstring \<Rightarrow> jstring" where
  "replace_all p r [] = (case match_pat p [] of None \<Rightarrow> [] | Some rest \<Rightarrow> r)"
| "replace_all p r (c # s) =
     (case match_pat p (c # s) of
        None \<Rightarrow> c # replace_all p r s
      | Some rest \<Rightarrow>
          if length rest < length (c # s) then r @ replace_all p r rest
          else r @ c # replace_all p r s)"

text \<open>\<open>/provider\s*=\s*env\("DATABASE_PROVIDER"\)/\<close>\<close>

definition provider_placeholder :: "item list" where
  "provider_placeholder =
     [Lit (js ''provider''), Ws, Lit (js ''=''), Ws, Lit (js ''env(\"DATABASE_PROVIDER\")'')]"

text \<open>\<open>/provider\s*=\s*"(postgresql|sqlite)"/\<close>\<close>

definition provider_literal :: "item list" where
  "provider_literal =
     [Lit (js ''provider''), Ws, Lit (js ''=''), Ws, Lit (js ''\"''),
      Alt [js ''postgresql'', js ''sqlite''], Lit (js ''\"'')]"

text \<open>\<open>/directUrl\s*=\s*env\("DIRECT_URL"\)/\<close>\<close>

definition directUrl_field :: "item list" where
  "directUrl_field =
     [Lit (js ''directUrl''), Ws, Lit (js ''=''), Ws, Lit (js ''env(\"DIRECT_URL\")'')]"

text \<open>\<open>/\n\s*directUrl\s*=\s*env\("DIRECT_URL"\)/g\<close>\<close>

definition directUrl_line :: "item list" where
  "directUrl_line =
     [Lit [10], Ws, Lit (js ''directUrl''), Ws, Lit (js ''=''), Ws,
      Lit (js ''env(\"DIRECT_URL\")'')]"

text \<open>
  The rewriting of \<open>generate-schema.cjs\<close> (lines 63 to 87), as a function of the
  template text and the provider string.
\<close>

definition provider_decl :: "jstring \<Rightarrow> jstring" where
  "provider_decl provider = js ''provider = \"'' @ provider @ js ''\"''"

definition directUrl_decl :: jstring where
  "directUrl_decl = js ''directUrl = env(\"DIRECT_URL\")''"

definition generate :: "jstring \<Rightarrow> jstring \<Rightarrow> jstring" where
  "generate schemaTemplate provider =
     (let isCloud = (provider = js ''postgresql'');
          generatedSchema =
            replace_first provider_literal (provider_decl provider)
              (replace_first provider_placeholder (provider_decl provider) schemaTemplate)
      in if isCloud then replace_first directUrl_field directUrl_decl generatedSchema
         else replace_all directUrl_line [] generatedSchema)"

text \<open>
  Where a pattern occurs: \<open>has_match p s\<close> says that the pattern matches at some
  position of \<open>s\<close>, \<open>occurrences p s\<close> counts the positions at which it matches, and
  \<open>contains t s\<close> says that the text \<open>t\<close> occurs in \<open>s\<close>.
\<close>

fun has_match :: "item list \<Rightarrow> jstring \<Rightarrow> bool" where
  "has_match p [] = (match_pat p [] \<noteq> None)"
| "has_match p (c # s) = (match_pat p (c # s) \<noteq> None \<or> has_match p s)"

fun occurrences :: "item list \<Rightarrow> jstring \<Rightarrow> nat" where
  "occurrences p [] = (if match_pat p [] \<noteq> None then 1 else 0)"
| "occurrences p (c # s) = (if match_pat p (c # s) \<noteq> None then 1 else 0) + occurrences p s"

fun contains :: "jstring \<Rightarrow> jstring \<Rightarrow> bool" where
  "contains t [] = (t = [])"
| "contains t (c # s) = (startsWith (c # s) t \<or> contains t s)"

text \<open>
  The line removal of the embedded run is the one step that deletes text, and deleting
  text can bring together the text before and after it. \<open>joins_nothing m p s\<close> follows
  the scan of \<open>replace_all m []\<close> over \<open>s\<close> and says that, at every position the scan
  keeps, the pattern \<open>p\<close> matches the text that is left after the removal only where it
  matched before: the removal joins no text into a new match of \<open>p\<close>.
  \<open>none_outside m p s\<close> follows the same scan and says that \<open>p\<close> matches at no position
  that the scan keeps: every match of \<open>p\<close> in \<open>s\<close> starts inside a text that the removal
  deletes. \<open>first_match p s\<close> is the text of the leftmost match of \<open>p\<close> in \<open>s\<close>.
\<close>

fun joins_nothing :: "item list \<Rightarrow> item list \<Rightarrow> jstring \<Rightarrow> bool" where
  "joins_nothing m p [] = True"
| "joins_nothing m p (c # s) =
     (case match_pat m (c # s) of
        None \<Rightarrow>
          (match_pat p (c # replace_all m [] s) \<noteq> None \<longrightarrow> match_pat p (c # s) \<noteq> None)
          \<and> joins_nothing m p s
      | Some rest \<Rightarrow>
          if length rest < length (c # s) then joins_nothing m p rest
          else (match_pat p (c # replace_all m [] s) \<noteq> None \<longrightarrow> match_pat p (c # s) \<noteq> None)
               \<and> joins_nothing m p s)"

fun none_outside :: "item list \<Rightarrow> item list \<Rightarrow> jstring \<Rightarrow> bool" where
  "none_outside m p [] = (match_pat p [] = None)"
| "none_outside m p (c # s) =
     (case match_pat m (c # s) of
        None \<Rightarrow> match_pat p (c # s) = None \<and> none_outside m p s
      | Some rest \<Rightarrow>
          if length rest < length (c # s) then none_outside m p rest
          else match_pat p (c # s) = None \<and> none_outside m p s)"


section \<open>Patterns: what the proofs measure\<close>

text \<open>
  The statements about the rewriting need a few syntactic checks on patterns and texts.
  \<open>begins_with a b p\<close>: the pattern starts with a literal whose first two characters
  are \<open>a\<close> and \<open>b\<close>. \<open>safe_lit a b l\<close>: the text \<open>l\<close> does not contain \<open>a\<close> followed
  by \<open>b\<close> and does not end with \<open>a\<close>; \<open>safe_pat a b p\<close>: every literal of the pattern
  is such a text. \<open>pat_chars p\<close>: the characters of the pattern's literals.
\<close>

fun safe_lit :: "nat \<Rightarrow> nat \<Rightarrow> jstring \<Rightarrow> bool" where
  "safe_lit a b [] = True"
| "safe_lit a b [c] = (c \<noteq> a)"
| "safe_lit a b (c # d # s) = (\<not> (c = a \<and> d = b) \<and> safe_lit a b (d # s))"

fun safe_item :: "nat \<Rightarrow> nat \<Rightarrow> item \<Rightarrow> bool" where
  "safe_item a b (Lit l) = safe_lit a b l"
| "safe_item a b Ws = True"
| "safe_item a b (Alt ls) = list_all (safe_lit a b) ls"

definition safe_pat :: "nat \<Rightarrow> nat \<Rightarrow> item list \<Rightarrow> bool" where
  "safe_pat a b p = list_all (safe_item a b) p"

fun begins_with :: "nat \<Rightarrow> nat \<Rightarrow> item list \<Rightarrow> bool" where
  "begins_with a b (Lit (c # d # l) # p) = (c = a \<and> d = b)"
| "begins_with a b p = False"

fun item_chars :: "item \<Rightarrow> nat set" where
  "item_chars (Lit l) = set l"
| "item_chars Ws = {}"
| "item_chars (Alt ls) = \<Union> (set ` set ls)"

definition pat_chars :: "item list \<Rightarrow> nat set" where
  "pat_chars p = \<Union> (item_chars ` set p)"

section \<open>Example worlds\<close>

text \<open>
  A Linux machine with home directory \<open>/home/u\<close>, no \<open>.env\<close> file, on which every
  directory can be created and every command succeeds; and the same machine where
  every command after the schema generation exits with status 3.
\<close>

definition unix_world :: world where
  "unix_world = \<lparr>platform = js ''linux'', homedir = js ''/home/u'', path_join = posix_join,
     env_file = None, existsSync = (\<lambda>p. False), mkdir_succeeds = (\<lambda>p. True),
     exec = (\<lambda>n c e. Exec_ok)\<rparr>"

definition failing_world :: world where
  "failing_world = unix_world\<lparr>exec := (\<lambda>n c e. if n = 0 then Exec_ok else Exec_error (Some 3))\<rparr>"

text \<open>
  A schema template with the placeholder and a \<open>directUrl\<close> line, what the script
  makes of it for the embedded provider, what it makes of that for the networked
  provider, a text in which a \<open>directUrl\<close> line splits a provider declaration, and a
  text with two placeholders.
\<close>

definition example_template :: jstring where
  "example_template =
     js ''datasource db {\<newline>  provider  = env(\"DATABASE_PROVIDER\")\<newline>  url       = env(\"DATABASE_URL\")\<newline>  directUrl = env(\"DIRECT_URL\")\<newline>}\<newline>''"



definition split_declaration :: jstring where
  "split_declaration = js ''provider =  \"sql\<newline>directUrl = env(\"DIRECT_URL\")ite\"''"

definition two_placeholders :: jstring where
  "two_placeholders =
     js ''provider = env(\"DATABASE_PROVIDER\")\<newline>provider = env(\"DATABASE_PROVIDER\")''"

text \<open>
  A text with two literal provider declarations and a text with no provider declaration,
  each with a \<open>directUrl\<close> line. Then texts on which the statements about the
  rewriting fail without their conditions: three placeholders; a \<open>directUrl\<close> field that follows other text on its line; and texts in
  which a \<open>directUrl\<close> line splits a placeholder, a \<open>directUrl\<close> line and a
  \<open>directUrl\<close> field.
\<close>

definition two_literals :: jstring where
  "two_literals =
     js ''provider = \"postgresql\"\<newline>provider = \"postgresql\"\<newline>directUrl = env(\"DIRECT_URL\")\<newline>''"

definition no_declaration :: jstring where
  "no_declaration = js ''model A {\<newline>  directUrl = env(\"DIRECT_URL\")\<newline>}\<newline>''"

definition three_placeholders :: jstring where
  "three_placeholders =
     js ''provider = env(\"DATABASE_PROVIDER\")\<newline>provider = env(\"DATABASE_PROVIDER\")\<newline>provider = env(\"DATABASE_PROVIDER\")''"

definition field_after_text :: jstring where
  "field_after_text = js ''provider = env(\"DATABASE_PROVIDER\") directUrl = env(\"DIRECT_URL\")''"

definition split_placeholder :: jstring where
  "split_placeholder = js ''provider =\<newline>directUrl = env(\"DIRECT_URL\") env(\"DATABASE_PROVIDER\")''"

definition split_line :: jstring where
  "split_line = js ''\<newline>direct\<newline>directUrl = env(\"DIRECT_URL\")Url = env(\"DIRECT_URL\")''"

definition split_field :: jstring where
  "split_field =
     js ''provider = env(\"DATABASE_PROVIDER\") direct\<newline>directUrl = env(\"DIRECT_URL\")Url = env(\"DIRECT_URL\")''"

section \<open>Facts about strings\<close>

lemma startsWith_iff_prefix: "startsWith s p \<longleftrightarrow> prefix p s"
  unfolding startsWith_def prefix_def
  by (metis append_eq_conv_conj append_take_drop_id)

lemma js_postgresql_ne_sqlite: "js ''postgresql'' \<noteq> js ''sqlite''"
  by (simp add: js_def)

section \<open>Provider detection: theorems\<close>

text \<open>
  C3. For every environment, both copies of \<open>getDatabaseProvider\<close> return
  \<open>postgresql\<close> exactly when \<open>DATABASE_URL\<close> is set and begins with
  \<open>postgresql://\<close>, and \<open>sqlite\<close> for every other input, the unset variable included.
  The functions are total: there is no input on which they fail.
\<close>

theorem getDatabaseProvider_classifies:
  "getDatabaseProvider e =
     (if \<exists>u. e DATABASE_URL = Some u \<and> prefix (js ''postgresql://'') u
      then js ''postgresql'' else js ''sqlite'')
   \<and> getDatabaseProvider_schema e =
     (if \<exists>u. e DATABASE_URL = Some u \<and> prefix (js ''postgresql://'') u
      then js ''postgresql'' else js ''sqlite'')
   \<and> ((getDatabaseProvider e = js ''postgresql'') \<longleftrightarrow>
        (\<exists>u. e DATABASE_URL = Some u \<and> prefix (js ''postgresql://'') u))"
proof -
  have ne: "\<And>u. prefix (js ''postgresql://'') u \<Longrightarrow> u \<noteq> []"
    by (auto simp: js_def)
  show ?thesis
    unfolding getDatabaseProvider_def getDatabaseProvider_schema_def Let_def
    using ne js_postgresql_ne_sqlite
    by (cases "e DATABASE_URL") (auto simp: startsWith_iff_prefix)
qed

theorem getDatabaseProvider_classifies_witness:
  "getDatabaseProvider [DATABASE_URL \<mapsto> js ''postgresql://host/db''] = js ''postgresql''
   \<and> getDatabaseProvider_schema [DATABASE_URL \<mapsto> js ''file:./dev.db''] = js ''sqlite''
   \<and> getDatabaseProvider Map.empty = js ''sqlite''"
  using getDatabaseProvider_classifies [of "[DATABASE_URL \<mapsto> js ''postgresql://host/db'']"]
    getDatabaseProvider_classifies [of "[DATABASE_URL \<mapsto> js ''file:./dev.db'']"]
    getDatabaseProvider_classifies [of Map.empty]
  by (simp add: js_def)

text \<open>
  C9. The three provider detections agree on every environment: the two copies of
  \<open>getDatabaseProvider\<close> return the same string, and the value of \<open>isCloudMode\<close> is
  truthy exactly when that string is \<open>postgresql\<close>.
\<close>

theorem provider_detections_agree:
  "getDatabaseProvider_schema e = getDatabaseProvider e
   \<and> (toBoolean (isCloudMode e) \<longleftrightarrow> getDatabaseProvider e = js ''postgresql'')"
proof -
  have ne: "\<And>u. startsWith u (js ''postgresql://'') \<Longrightarrow> u \<noteq> []"
    by (auto simp: js_def startsWith_def)
  show ?thesis
    unfolding getDatabaseProvider_def getDatabaseProvider_schema_def isCloudMode_def Let_def
    using ne js_postgresql_ne_sqlite
    by (cases "e DATABASE_URL") auto
qed

theorem provider_detections_agree_witness:
  "toBoolean (isCloudMode [DATABASE_URL \<mapsto> js ''postgresql://h/d''])
   \<and> getDatabaseProvider_schema [DATABASE_URL \<mapsto> js ''postgresql://h/d''] = js ''postgresql''
   \<and> \<not> toBoolean (isCloudMode [DATABASE_URL \<mapsto> []])
   \<and> getDatabaseProvider_schema [DATABASE_URL \<mapsto> []] \<noteq> js ''postgresql''"
proof -
  have a: "toBoolean (isCloudMode [DATABASE_URL \<mapsto> js ''postgresql://h/d''])"
    by (simp add: isCloudMode_def startsWith_def js_def)
  have b: "\<not> toBoolean (isCloudMode [DATABASE_URL \<mapsto> []])"
    by (simp add: isCloudMode_def)
  show ?thesis
    using a b provider_detections_agree [of "[DATABASE_URL \<mapsto> js ''postgresql://h/d'']"]
      provider_detections_agree [of "[DATABASE_URL \<mapsto> []]"]
    by metis
qed

section \<open>EnvLoader: theorems\<close>

text \<open>
  \<open>match_assignment\<close> is the regular expression read as a language: a line matches
  exactly when it is a non-empty text without an equals sign, an equals sign, and a text
  without a line terminator; the two texts are the groups.
\<close>

lemma match_assignment_iff:
  "match_assignment line = Some (k, v) \<longleftrightarrow>
     line = k @ 61 # v \<and> k \<noteq> [] \<and> 61 \<notin> set k \<and> \<not> list_ex is_line_terminator v"
proof
  assume m: "match_assignment line = Some (k, v)"
  let ?k = "takeWhile (\<lambda>c. c \<noteq> 61) line" and ?r = "dropWhile (\<lambda>c. c \<noteq> 61) line"
  from m have k: "?k \<noteq> []" by (auto simp: match_assignment_def Let_def split: if_splits)
  from m k obtain c where r: "?r = c # v" and v: "\<not> list_ex is_line_terminator v" and kk: "k = ?k"
    by (cases ?r) (auto simp: match_assignment_def Let_def split: if_splits)
  have "c = 61" using r hd_dropWhile [of "\<lambda>c. c \<noteq> 61" line] by force
  moreover have "line = ?k @ ?r" by simp
  moreover have "61 \<notin> set ?k" by (auto dest: set_takeWhileD)
  ultimately show "line = k @ 61 # v \<and> k \<noteq> [] \<and> 61 \<notin> set k \<and> \<not> list_ex is_line_terminator v"
    using k r v kk by simp
next
  assume h: "line = k @ 61 # v \<and> k \<noteq> [] \<and> 61 \<notin> set k \<and> \<not> list_ex is_line_terminator v"
  then have "\<forall>c\<in>set k. c \<noteq> 61" by auto
  then have "takeWhile (\<lambda>c. c \<noteq> 61) (k @ 61 # v) = k"
    "dropWhile (\<lambda>c. c \<noteq> 61) (k @ 61 # v) = 61 # v"
    by (induction k) simp_all
  then have "takeWhile (\<lambda>c. c \<noteq> 61) line = k" "dropWhile (\<lambda>c. c \<noteq> 61) line = 61 # v"
    using h by simp_all
  then show "match_assignment line = Some (k, v)"
    using h by (simp add: match_assignment_def Let_def)
qed

lemma trim_subset: "set (trim s) \<subseteq> set s"
proof
  fix x assume "x \<in> set (trim s)"
  then have "x \<in> set (dropWhile is_space (rev (dropWhile is_space s)))"
    by (simp add: trim_def)
  then have "x \<in> set (rev (dropWhile is_space s))" by (rule set_dropWhileD)
  then have "x \<in> set (dropWhile is_space s)" by simp
  then show "x \<in> set s" by (rule set_dropWhileD)
qed

lemma c_string_subset: "set (c_string s) \<subseteq> set s"
  unfolding c_string_def by (auto dest: set_takeWhileD)

lemma parse_line_key_no_equals:
  assumes "parse_line line = Some (key, v)"
  shows "61 \<notin> set (c_string key)"
proof -
  from assms obtain k0 v0 where m: "match_assignment line = Some (k0, v0)" and key: "key = trim k0"
    by (auto simp: parse_line_def split: if_splits option.splits)
  from m have "61 \<notin> set k0" by (simp add: match_assignment_iff)
  then show ?thesis using key trim_subset [of k0] c_string_subset [of key] by blast
qed

text \<open>One line changes at most the variable that its key names.\<close>

lemma load_line_other:
  assumes "parse_line line = Some (key, v)" and "c_string key \<noteq> k"
  shows "load_line e line k = e k"
  using assms by (simp add: load_line_def env_assign_def Let_def)

lemma load_line_None: "parse_line line = None \<Longrightarrow> load_line e line = e"
  by (simp add: load_line_def)

lemma load_line_keeps:
  assumes "e k = Some v" and "v \<noteq> []"
  shows "load_line e line k = Some v"
proof (cases "parse_line line")
  case None
  then show ?thesis using assms by (simp add: load_line_None)
next
  case (Some kv)
  obtain key val where kv: "kv = (key, val)" by (cases kv)
  show ?thesis
  proof (cases "c_string key = k")
    case False
    then show ?thesis using Some kv assms load_line_other by simp
  next
    case True
    show ?thesis
    proof (cases "k = []")
      case True
      then show ?thesis
        using Some kv \<open>c_string key = k\<close> assms by (simp add: load_line_def env_assign_def)
    next
      case False
      then have "env_is_truthy e key"
        using \<open>c_string key = k\<close> assms by (simp add: env_is_truthy_def)
      then show ?thesis using Some kv assms by (simp add: load_line_def)
    qed
  qed
qed

lemma foldl_load_line_keeps:
  "e k = Some v \<Longrightarrow> v \<noteq> [] \<Longrightarrow> foldl load_line e ls k = Some v"
proof (induction ls arbitrary: e)
  case Nil
  then show ?case by simp
next
  case (Cons l ls)
  have "load_line e l k = Some v" using Cons.prems by (rule load_line_keeps)
  then show ?case using Cons.IH [of "load_line e l"] Cons.prems(2) by simp
qed

lemma load_line_empty:
  assumes "e k = Some []" and "k \<noteq> []" and "parse_line line = Some (key, v)"
    and "c_string key = k"
  shows "load_line e line k = Some (c_string v)"
proof -
  have "\<not> env_is_truthy e key" using assms(1,2,4) by (simp add: env_is_truthy_def)
  moreover have "61 \<notin> set (c_string key)" using assms(3) by (rule parse_line_key_no_equals)
  ultimately show ?thesis
    using assms by (simp add: load_line_def env_assign_def)
qed

lemma assigned_in_Cons:
  "assigned_in (l # ls) k =
     (case parse_line l of None \<Rightarrow> assigned_in ls k
      | Some (key, v) \<Rightarrow>
          if c_string key = k then c_string v # assigned_in ls k else assigned_in ls k)"
  unfolding assigned_in_def by (simp add: List.map_filter_simps split: option.splits)

lemma first_nonempty_Cons:
  "first_nonempty (v # vs) = (if v = [] then first_nonempty vs else v)"
  by (simp add: first_nonempty_def)

lemma foldl_load_line_empty:
  "e k = Some [] \<Longrightarrow> k \<noteq> [] \<Longrightarrow>
   foldl load_line e ls k = Some (first_nonempty (assigned_in ls k))"
proof (induction ls arbitrary: e)
  case Nil
  then show ?case by (simp add: assigned_in_def List.map_filter_simps first_nonempty_def)
next
  case (Cons l ls)
  show ?case
  proof (cases "parse_line l")
    case None
    then show ?thesis
      using Cons.IH [of e] Cons.prems by (simp add: load_line_None assigned_in_Cons)
  next
    case (Some kv)
    obtain key v where kv: "kv = (key, v)" by (cases kv)
    show ?thesis
    proof (cases "c_string key = k")
      case False
      then have "load_line e l k = Some []"
        using Some kv Cons.prems(1) load_line_other by simp
      then show ?thesis
        using Cons.IH [of "load_line e l"] Cons.prems(2) Some kv False
        by (simp add: assigned_in_Cons)
    next
      case True
      have st: "load_line e l k = Some (c_string v)"
        using Cons.prems Some kv True by (intro load_line_empty) simp_all
      have as: "assigned_in (l # ls) k = c_string v # assigned_in ls k"
        using Some kv True by (simp add: assigned_in_Cons)
      show ?thesis
      proof (cases "c_string v = []")
        case True
        then show ?thesis
          using Cons.IH [of "load_line e l"] Cons.prems(2) st as
          by (simp add: first_nonempty_Cons)
      next
        case False
        then have "foldl load_line (load_line e l) ls k = Some (c_string v)"
          using st by (intro foldl_load_line_keeps) simp_all
        then show ?thesis using as False by (simp add: first_nonempty_Cons)
      qed
    qed
  qed
qed

lemmas parse_defs = parse_line_def match_assignment_def js_def trim_def startsWith_def
  endsWith_def strip_quotes_def is_space_def is_line_terminator_def

lemma parse_K_v: "parse_line (js ''K=v'') = Some (js ''K'', js ''v'')"
  by (simp add: parse_defs)

lemma parse_K_empty: "parse_line (js ''K='') = Some (js ''K'', [])"
  by (simp add: parse_defs)

lemma parse_K_quoted: "parse_line (js ''K = \"v w\" '') = Some (js ''K'', js ''v w'')"
  by (simp add: parse_defs)

lemma parse_K_nul: "parse_line (js ''K='' @ 0 # js ''x'') = Some (js ''K'', 0 # js ''x'')"
  by (simp add: parse_defs)

lemma split_three_lines:
  "split_on 10 (js ''K=\<newline>K = \"v w\" \<newline>K=v'') = [js ''K='', js ''K = \"v w\" '', js ''K=v'']"
  by (simp add: js_def)

lemma split_nul_lines:
  "split_on 10 (js ''K='' @ 0 # js ''x\<newline>K=v'') = [js ''K='' @ 0 # js ''x'', js ''K=v'']"
  by (simp add: js_def)

lemma c_string_K: "c_string (js ''K'') = js ''K''"
  by (simp add: c_string_def js_def)

text \<open>
  C4 (as amended). \<open>loadEnvFile\<close> never changes a variable whose value before the call
  is a non-empty string, whatever the file contains (and also when there is no file).
  A variable that is set to the empty string is not protected: the guard
  \<open>!process.env[key]\<close> reads it as unset.
\<close>

theorem loadEnvFile_keeps_nonempty:
  assumes "e k = Some v" and "v \<noteq> []"
  shows "loadEnvFile f e k = Some v"
  using assms by (cases f) (simp_all add: loadEnvFile_def foldl_load_line_keeps)

text \<open>
  The same statement for every variable that is set fails on a variable set to the empty
  string: the file's line \<open>K=v\<close> replaces the value of \<open>K\<close>.
\<close>

theorem loadEnvFile_overwrites_empty_counterexample:
  "[js ''K'' \<mapsto> []] (js ''K'') = Some []
   \<and> loadEnvFile (Some (js ''K=v'')) [js ''K'' \<mapsto> []] (js ''K'') = Some (js ''v'')
   \<and> js ''v'' \<noteq> []"
proof -
  have "split_on 10 (js ''K=v'') = [js ''K=v'']" by (simp add: js_def)
  moreover have "load_line [js ''K'' \<mapsto> []] (js ''K=v'') (js ''K'') = Some (c_string (js ''v''))"
    by (rule load_line_empty [OF _ _ parse_K_v c_string_K]) (simp_all add: js_def)
  moreover have "c_string (js ''v'') = js ''v''" by (simp add: c_string_def js_def)
  ultimately show ?thesis by (simp add: loadEnvFile_def) (simp add: js_def)
qed

theorem loadEnvFile_keeps_nonempty_witness:
  "loadEnvFile (Some (js ''K=v'')) [js ''K'' \<mapsto> js ''w''] (js ''K'') = Some (js ''w'')"
proof -
  have "js ''w'' \<noteq> []" by (simp add: js_def)
  then show ?thesis
    using loadEnvFile_keeps_nonempty [of "[js ''K'' \<mapsto> js ''w'']" "js ''K''" "js ''w''" "Some (js ''K=v'')"]
    by simp
qed

text \<open>
  A line whose key is the empty string, or whose key names a property inherited from
  \<open>Object.prototype\<close> while no such variable is set, or whose value begins with a NUL,
  leaves the environment as it is or stores the empty string.
\<close>

lemma load_line_special_cases:
  "load_line Map.empty (js '' =v'') = Map.empty"
  "load_line Map.empty (js ''constructor=v'') = Map.empty"
  "load_line [js ''K'' \<mapsto> []] (js ''K='' @ 0 # js ''x'') = [js ''K'' \<mapsto> []]"
  by (simp_all add: load_line_def env_is_truthy_def env_assign_def c_string_def
      inherited_names_def parse_defs)

text \<open>
  A file without a NUL character has lines, keys and values without one, and cutting
  changes none of them: the values assigned to a variable are then the values written
  in the lines whose key is its name.
\<close>

lemma c_string_id: "0 \<notin> set s \<Longrightarrow> c_string s = s"
  unfolding c_string_def by (induction s) auto

lemma split_on_subset: "l \<in> set (split_on sep s) \<Longrightarrow> set l \<subseteq> set s"
proof (induction s arbitrary: l)
  case Nil
  then show ?case by simp
next
  case (Cons c s)
  show ?case
  proof (cases "c = sep")
    case True
    then show ?thesis using Cons by auto
  next
    case False
    show ?thesis
    proof (cases "split_on sep s")
      case Nil
      then show ?thesis using Cons.prems False by simp
    next
      case (Cons l' ls)
      then have "l = c # l' \<or> l \<in> set ls" using Cons.prems False by simp
      moreover have "set l' \<subseteq> set s" using Cons.IH [of l'] Cons by simp
      moreover have "l \<in> set ls \<Longrightarrow> set l \<subseteq> set s" using Cons.IH [of l] Cons by simp
      ultimately show ?thesis by auto
    qed
  qed
qed

lemma strip_quotes_subset: "set (strip_quotes v) \<subseteq> set v"
proof -
  have "set (take (length v - 2) (drop 1 v)) \<subseteq> set v"
    using set_take_subset [of "length v - 2" "drop 1 v"] set_drop_subset [of 1 v] by blast
  then show ?thesis by (simp add: strip_quotes_def)
qed

lemma parse_line_subset:
  assumes "parse_line line = Some (key, v)"
  shows "set key \<subseteq> set line \<and> set v \<subseteq> set line"
proof -
  from assms obtain k0 v0 where m: "match_assignment line = Some (k0, v0)"
    and key: "key = trim k0" and v: "v = strip_quotes (trim v0)"
    by (auto simp: parse_line_def split: if_splits option.splits)
  from m have k0: "k0 = takeWhile (\<lambda>c. c \<noteq> 61) line"
    and "\<exists>c. dropWhile (\<lambda>c. c \<noteq> 61) line = c # v0"
    by (auto simp: match_assignment_def Let_def split: if_splits list.splits)
  then obtain c where "dropWhile (\<lambda>c. c \<noteq> 61) line = c # v0" by blast
  then have "set v0 \<subseteq> set (dropWhile (\<lambda>c. c \<noteq> 61) line)" by auto
  then have "set v0 \<subseteq> set line" using set_dropWhileD by fastforce
  moreover have "set k0 \<subseteq> set line" unfolding k0 using set_takeWhileD by fastforce
  ultimately show ?thesis
    using key v trim_subset [of k0] trim_subset [of v0] strip_quotes_subset [of "trim v0"]
    by blast
qed

lemma assigned_in_NUL_free:
  "\<forall>l\<in>set ls. 0 \<notin> set l \<Longrightarrow>
   assigned_in ls k = map snd (filter (\<lambda>kv. fst kv = k) (List.map_filter parse_line ls))"
proof (induction ls)
  case Nil
  then show ?case by (simp add: assigned_in_def)
next
  case (Cons l ls)
  then have ih: "assigned_in ls k =
      map snd (filter (\<lambda>kv. fst kv = k) (List.map_filter parse_line ls))" by simp
  show ?case
  proof (cases "parse_line l")
    case None
    then show ?thesis using ih by (simp add: assigned_in_Cons List.map_filter_simps)
  next
    case (Some kv)
    obtain key v where kv: "kv = (key, v)" by (cases kv)
    have "0 \<notin> set l" using Cons.prems by simp
    then have "0 \<notin> set key" "0 \<notin> set v"
      using parse_line_subset [of l key v] Some kv by auto
    then have "c_string key = key" "c_string v = v" by (simp_all add: c_string_id)
    then show ?thesis using ih Some kv by (simp add: assigned_in_Cons List.map_filter_simps)
  qed
qed

lemma assigned_NUL_free:
  assumes "0 \<notin> set envContent"
  shows "assigned envContent k =
         map snd (filter (\<lambda>kv. fst kv = k)
           (List.map_filter parse_line (split_on 10 envContent)))"
proof -
  have "\<forall>l\<in>set (split_on 10 envContent). 0 \<notin> set l"
    using assms split_on_subset by blast
  then show ?thesis unfolding assigned_def by (rule assigned_in_NUL_free)
qed

text \<open>
  C10. When a variable is set to the empty string before \<open>loadEnvFile\<close> runs and the
  file has a line that assigns it, the variable afterwards holds the file's value for
  it: the first non-empty value the file assigns to the variable (once the variable is
  non-empty, later lines leave it alone), and the empty string when the file assigns
  it only empty values. The values are taken as they are stored, cut at their first
  NUL.
\<close>

theorem loadEnvFile_replaces_empty:
  assumes "e k = Some []" and "k \<noteq> []" and "assigned envContent k \<noteq> []"
  shows "loadEnvFile (Some envContent) e k = Some (first_nonempty (assigned envContent k))"
  using foldl_load_line_empty [of e k "split_on 10 envContent"] assms
  by (simp add: loadEnvFile_def assigned_def)

theorem loadEnvFile_replaces_empty_witness:
  "assigned (js ''K=\<newline>K = \"v w\" \<newline>K=v'') (js ''K'') = [[], js ''v w'', js ''v'']
   \<and> loadEnvFile (Some (js ''K=\<newline>K = \"v w\" \<newline>K=v'')) [js ''K'' \<mapsto> []] (js ''K'') =
       Some (js ''v w'')
   \<and> assigned (js ''K='' @ 0 # js ''x\<newline>K=v'') (js ''K'') = [[], js ''v'']
   \<and> loadEnvFile (Some (js ''K='' @ 0 # js ''x\<newline>K=v'')) [js ''K'' \<mapsto> []] (js ''K'') =
       Some (js ''v'')"
proof -
  have cs: "c_string (js ''v w'') = js ''v w''" "c_string (js ''v'') = js ''v''"
    "c_string (0 # js ''x'') = []" "c_string [] = []"
    by (simp_all add: c_string_def js_def)
  have a: "assigned (js ''K=\<newline>K = \"v w\" \<newline>K=v'') (js ''K'') = [[], js ''v w'', js ''v'']"
    by (simp add: assigned_def assigned_in_def split_three_lines List.map_filter_simps
        parse_K_v parse_K_empty parse_K_quoted c_string_K cs)
  have a': "assigned (js ''K='' @ 0 # js ''x\<newline>K=v'') (js ''K'') = [[], js ''v'']"
    by (simp add: assigned_def assigned_in_def split_nul_lines List.map_filter_simps
        parse_K_v parse_K_nul c_string_K cs)
  have b: "[js ''K'' \<mapsto> []] (js ''K'') = Some []" by simp
  have c: "js ''v w'' \<noteq> []" "js ''v'' \<noteq> []" "js ''K'' \<noteq> []" by (simp_all add: js_def)
  show ?thesis
    using loadEnvFile_replaces_empty
      [of "[js ''K'' \<mapsto> []]" "js ''K''" "js ''K=\<newline>K = \"v w\" \<newline>K=v''"]
      loadEnvFile_replaces_empty
      [of "[js ''K'' \<mapsto> []]" "js ''K''" "js ''K='' @ 0 # js ''x\<newline>K=v''"] a a' b c
    by (simp add: first_nonempty_def)
qed

section \<open>EnvConfigurator: theorems\<close>

lemma env_names_distinct:
  "DATABASE_URL \<noteq> DATABASE_PROVIDER" "DATABASE_URL \<noteq> DIRECT_URL"
  "DATABASE_PROVIDER \<noteq> DIRECT_URL" "DATABASE_PROVIDER \<noteq> DATABASE_URL"
  "DIRECT_URL \<noteq> DATABASE_URL" "DIRECT_URL \<noteq> DATABASE_PROVIDER"
  by (simp_all add: DATABASE_URL_def DATABASE_PROVIDER_def DIRECT_URL_def js_def)

lemma getDatabaseProvider_cong:
  "e' DATABASE_URL = e DATABASE_URL \<Longrightarrow> getDatabaseProvider e' = getDatabaseProvider e"
  by (simp add: getDatabaseProvider_def)

lemma file_url_is_sqlite:
  "getDatabaseProvider (e(DATABASE_URL \<mapsto> js ''file:'' @ p)) = js ''sqlite''"
  by (simp add: getDatabaseProvider_def Let_def startsWith_def js_def)

lemma set_provider_and_direct_props:
  assumes "e DATABASE_URL = Some u" and "u \<noteq> []"
  defines "e' \<equiv> set_provider_and_direct e"
  shows "e' DATABASE_URL = Some u"
    and "getDatabaseProvider e' = getDatabaseProvider e"
    and "e' DATABASE_PROVIDER = Some (getDatabaseProvider e)"
    and "(e' DIRECT_URL \<noteq> None) \<longleftrightarrow> (getDatabaseProvider e = js ''postgresql'' \<or> e DIRECT_URL \<noteq> None)"
    and "truthy (e' DIRECT_URL) \<longleftrightarrow> (getDatabaseProvider e = js ''postgresql'' \<or> truthy (e DIRECT_URL))"
proof -
  let ?e1 = "e(DATABASE_PROVIDER \<mapsto> getDatabaseProvider e)"
  have p1: "getDatabaseProvider ?e1 = getDatabaseProvider e"
    by (rule getDatabaseProvider_cong) (simp add: env_names_distinct)
  have d1: "?e1 DIRECT_URL = e DIRECT_URL" and u1: "?e1 DATABASE_URL = Some u"
    using assms(1) by (simp_all add: env_names_distinct)
  have e'_eq: "e' = (if \<not> truthy (e DIRECT_URL) \<and> getDatabaseProvider e = js ''postgresql''
                     then ?e1(DIRECT_URL \<mapsto> u) else ?e1)"
    unfolding e'_def set_provider_and_direct_def Let_def p1 d1 u1 by simp
  show "e' DATABASE_URL = Some u"
    using assms(1) by (simp add: e'_eq env_names_distinct)
  then show "getDatabaseProvider e' = getDatabaseProvider e"
    using assms(1) by (intro getDatabaseProvider_cong) simp
  show "e' DATABASE_PROVIDER = Some (getDatabaseProvider e)"
    by (simp add: e'_eq env_names_distinct)
  show "(e' DIRECT_URL \<noteq> None) \<longleftrightarrow> (getDatabaseProvider e = js ''postgresql'' \<or> e DIRECT_URL \<noteq> None)"
    by (cases "e DIRECT_URL") (auto simp: e'_eq env_names_distinct)
  show "truthy (e' DIRECT_URL) \<longleftrightarrow> (getDatabaseProvider e = js ''postgresql'' \<or> truthy (e DIRECT_URL))"
    using assms(2) by (cases "e DIRECT_URL") (auto simp: e'_eq env_names_distinct)
qed

lemma configureDatabaseEnv_result:
  assumes "configureDatabaseEnv w e = Inr e'"
  obtains u e0 where "e0 DATABASE_URL = Some u" "u \<noteq> []" "e' = set_provider_and_direct e0"
    "e0 DIRECT_URL = e DIRECT_URL"
proof (cases "truthy (e DATABASE_URL)")
  case True
  then obtain u where "e DATABASE_URL = Some u" "u \<noteq> []" by (cases "e DATABASE_URL") auto
  moreover have "e' = set_provider_and_direct e"
    using assms True by (simp add: configureDatabaseEnv_def)
  ultimately show ?thesis using that by blast
next
  case False
  let ?p = "path_join w [getDatabaseDirectory w e, js ''dev.db'']"
  let ?e0 = "e(DATABASE_URL \<mapsto> js ''file:'' @ ?p)"
  have "e' = set_provider_and_direct ?e0"
    using assms False by (simp add: configureDatabaseEnv_def Let_def split: if_splits)
  moreover have "?e0 DATABASE_URL = Some (js ''file:'' @ ?p)" by simp
  moreover have "js ''file:'' @ ?p \<noteq> []" by (simp add: js_def)
  moreover have "?e0 DIRECT_URL = e DIRECT_URL" by (simp add: env_names_distinct)
  ultimately show ?thesis using that by blast
qed

text \<open>
  C5. Whenever \<open>configureDatabaseEnv\<close> returns: \<open>DATABASE_URL\<close> is set, to a
  non-empty string; \<open>DATABASE_PROVIDER\<close> holds the classification of that
  \<open>DATABASE_URL\<close>; and \<open>DIRECT_URL\<close> is set exactly when the provider is
  \<open>postgresql\<close> or \<open>DIRECT_URL\<close> was set before the call (the same holds with
  "set to a non-empty string" on both sides).
\<close>

theorem configureDatabaseEnv_invariant:
  assumes "configureDatabaseEnv w e = Inr e'"
  shows "(\<exists>u. e' DATABASE_URL = Some u \<and> u \<noteq> [])
    \<and> e' DATABASE_PROVIDER = Some (getDatabaseProvider e')
    \<and> ((e' DIRECT_URL \<noteq> None) \<longleftrightarrow> (getDatabaseProvider e' = js ''postgresql'' \<or> e DIRECT_URL \<noteq> None))
    \<and> (truthy (e' DIRECT_URL) \<longleftrightarrow> (getDatabaseProvider e' = js ''postgresql'' \<or> truthy (e DIRECT_URL)))"
proof -
  from assms obtain u e0 where h: "e0 DATABASE_URL = Some u" "u \<noteq> []"
    "e' = set_provider_and_direct e0" "e0 DIRECT_URL = e DIRECT_URL"
    by (rule configureDatabaseEnv_result)
  show ?thesis
    using set_provider_and_direct_props [of e0 u] h by simp
qed

theorem configureDatabaseEnv_invariant_witness:
  "configureDatabaseEnv unix_world [DATABASE_URL \<mapsto> js ''postgresql://host/db''] =
     Inr [DATABASE_URL \<mapsto> js ''postgresql://host/db'', DATABASE_PROVIDER \<mapsto> js ''postgresql'',
          DIRECT_URL \<mapsto> js ''postgresql://host/db'']
   \<and> truthy ([DATABASE_URL \<mapsto> js ''postgresql://host/db'', DATABASE_PROVIDER \<mapsto> js ''postgresql'',
          DIRECT_URL \<mapsto> js ''postgresql://host/db''] DIRECT_URL)"
proof -
  have p: "getDatabaseProvider [DATABASE_URL \<mapsto> js ''postgresql://host/db''] = js ''postgresql''"
    by (simp add: getDatabaseProvider_def startsWith_def js_def)
  have c: "configureDatabaseEnv unix_world [DATABASE_URL \<mapsto> js ''postgresql://host/db''] =
     Inr [DATABASE_URL \<mapsto> js ''postgresql://host/db'', DATABASE_PROVIDER \<mapsto> js ''postgresql'',
          DIRECT_URL \<mapsto> js ''postgresql://host/db'']"
    unfolding configureDatabaseEnv_def set_provider_and_direct_def Let_def
    using p getDatabaseProvider_cong [of "[DATABASE_URL \<mapsto> js ''postgresql://host/db'', DATABASE_PROVIDER \<mapsto> js ''postgresql'']" "[DATABASE_URL \<mapsto> js ''postgresql://host/db'']"]
    by (simp add: env_names_distinct) (simp add: js_def)
  show ?thesis
    using configureDatabaseEnv_invariant [of unix_world "[DATABASE_URL \<mapsto> js ''postgresql://host/db'']"] c p
      getDatabaseProvider_cong [of "[DATABASE_URL \<mapsto> js ''postgresql://host/db'', DATABASE_PROVIDER \<mapsto> js ''postgresql'',
          DIRECT_URL \<mapsto> js ''postgresql://host/db'']" "[DATABASE_URL \<mapsto> js ''postgresql://host/db'']"]
    by (simp add: env_names_distinct)
qed

section \<open>PathResolver and ToolInvoker: theorems\<close>

lemma posix_join_config:
  "posix_join [js ''/home/u'', js ''.config'', js ''OnlyLabs''] = js ''/home/u/.config/OnlyLabs''"
  by (simp add: posix_join_def posix_normalize_def normalizeString_def norm_step_def js_def Let_def)

lemma posix_join_database:
  "posix_join [js ''/home/u/.config/OnlyLabs'', js ''database''] = js ''/home/u/.config/OnlyLabs/database''"
  by (simp add: posix_join_def posix_normalize_def normalizeString_def norm_step_def js_def Let_def)

lemma posix_join_dev_db:
  "posix_join [js ''/home/u/.config/OnlyLabs/database'', js ''dev.db''] =
     js ''/home/u/.config/OnlyLabs/database/dev.db''"
  by (simp add: posix_join_def posix_normalize_def normalizeString_def norm_step_def js_def Let_def)

lemma getDatabaseDirectory_unix:
  assumes "platform w \<noteq> js ''darwin''" and "platform w \<noteq> js ''win32''"
    and "homedir w = js ''/home/u''" and "path_join w = posix_join"
  shows "getDatabaseDirectory w e = js ''/home/u/.config/OnlyLabs/database''"
  using assms by (simp add: getDatabaseDirectory_def posix_join_config posix_join_database)

text \<open>
  C6. Scenario A: with no (or an empty) \<open>DATABASE_URL\<close>, on a platform that is neither
  \<open>darwin\<close> nor \<open>win32\<close>, with home directory \<open>/home/u\<close> and POSIX paths, and the
  database directory present or creatable, \<open>configureDatabaseEnv\<close> returns; the
  database path ends in \<open>.config/OnlyLabs/database/dev.db\<close>, \<open>DATABASE_URL\<close> is
  \<open>file:/home/u/.config/OnlyLabs/database/dev.db\<close>, and the provider is \<open>sqlite\<close>.
\<close>

theorem configure_scenario_A:
  assumes "\<not> truthy (e DATABASE_URL)"
    and "platform w \<noteq> js ''darwin''" and "platform w \<noteq> js ''win32''"
    and "homedir w = js ''/home/u''" and "path_join w = posix_join"
    and "existsSync w (getDatabaseDirectory w e) \<or> mkdir_succeeds w (getDatabaseDirectory w e)"
  shows "\<exists>e'. configureDatabaseEnv w e = Inr e'
    \<and> suffix (js ''.config/OnlyLabs/database/dev.db'')
         (path_join w [getDatabaseDirectory w e, js ''dev.db''])
    \<and> e' DATABASE_URL = Some (js ''file:/home/u/.config/OnlyLabs/database/dev.db'')
    \<and> getDatabaseProvider e' = js ''sqlite''
    \<and> e' DATABASE_PROVIDER = Some (js ''sqlite'')"
proof -
  let ?url = "js ''file:/home/u/.config/OnlyLabs/database/dev.db''"
  let ?e0 = "e(DATABASE_URL \<mapsto> ?url)"
  have dir: "getDatabaseDirectory w e = js ''/home/u/.config/OnlyLabs/database''"
    using assms(2-5) by (rule getDatabaseDirectory_unix)
  have path: "path_join w [getDatabaseDirectory w e, js ''dev.db''] =
      js ''/home/u/.config/OnlyLabs/database/dev.db''"
    by (simp add: dir assms(5) posix_join_dev_db)
  have url: "js ''file:'' @ js ''/home/u/.config/OnlyLabs/database/dev.db'' = ?url"
    by (simp add: js_def)
  have conf: "configureDatabaseEnv w e = Inr (set_provider_and_direct ?e0)"
    using assms(1,6) by (simp add: configureDatabaseEnv_def Let_def path url)
  have sq: "getDatabaseProvider ?e0 = js ''sqlite''"
    using file_url_is_sqlite [of e "js ''/home/u/.config/OnlyLabs/database/dev.db''"]
    by (simp add: url)
  have ne: "?url \<noteq> []" by (simp add: js_def)
  have u0: "?e0 DATABASE_URL = Some ?url" by simp
  have suf: "suffix (js ''.config/OnlyLabs/database/dev.db'')
      (js ''/home/u/.config/OnlyLabs/database/dev.db'')"
    by (simp add: suffix_def js_def)
  show ?thesis
    using conf path suf sq set_provider_and_direct_props(1-3) [of ?e0 ?url] u0 ne
    by simp
qed

theorem configure_scenario_A_witness:
  "\<exists>e'. configureDatabaseEnv unix_world Map.empty = Inr e'
    \<and> e' DATABASE_URL = Some (js ''file:/home/u/.config/OnlyLabs/database/dev.db'')
    \<and> getDatabaseProvider e' = js ''sqlite''"
proof -
  have "\<not> truthy (Map.empty DATABASE_URL)" by simp
  moreover have "platform unix_world \<noteq> js ''darwin''" "platform unix_world \<noteq> js ''win32''"
    by (simp_all add: unix_world_def js_def)
  moreover have "homedir unix_world = js ''/home/u''" "path_join unix_world = posix_join"
    by (simp_all add: unix_world_def)
  moreover have "existsSync unix_world (getDatabaseDirectory unix_world Map.empty)
      \<or> mkdir_succeeds unix_world (getDatabaseDirectory unix_world Map.empty)"
    by (simp add: unix_world_def)
  ultimately show ?thesis
    using configure_scenario_A [of Map.empty unix_world] by blast
qed

text \<open>
  C7. When the command (the arguments joined with spaces) is empty, the script prints
  the two usage lines and exits with code 1 before any call of \<open>execSync\<close>: neither
  the schema generation nor an external command is run.
\<close>

theorem empty_command_usage_error:
  assumes "join_with (js '' '') args = []"
  shows "exit_code (prisma_env w e args) = 1
    \<and> spawned (prisma_env w e args) = []
    \<and> errors (prisma_env w e args) =
        [js ''Usage: node prisma-env.js <prisma command>'',
         js ''Example: node prisma-env.js \"prisma generate && prisma db push\"'']
    \<and> uncaught (prisma_env w e args) = None"
  using assms by (simp add: prisma_env_def Let_def)

theorem empty_command_usage_error_witness:
  "exit_code (prisma_env unix_world Map.empty [[]]) = 1
   \<and> spawned (prisma_env unix_world Map.empty [[]]) = []
   \<and> exit_code (prisma_env unix_world Map.empty []) = 1
   \<and> spawned (prisma_env unix_world Map.empty []) = []"
  using empty_command_usage_error [of "[[]]" unix_world Map.empty]
    empty_command_usage_error [of "[]" unix_world Map.empty]
  by simp

text \<open>
  C8. When the script reaches the external command (the command is not empty, the
  environment was configured and the schema generation succeeded): the exit code is 0
  when the command succeeds; it is the command's status when that is a non-zero
  number, and 1 when the status is absent; a failure always gives a non-zero exit code;
  and the command is run exactly once.
\<close>

theorem command_exit_code_forwarded:
  assumes "join_with (js '' '') args = command" and "command \<noteq> []"
    and "configureDatabaseEnv w (loadEnvFile (env_file w) e) = Inr e1"
    and "exec w 0 (js ''node generate-schema.cjs'') e1 = Exec_ok"
  shows "(exec w 1 command e1 = Exec_ok \<longrightarrow> exit_code (prisma_env w e args) = 0)
    \<and> (\<forall>n. exec w 1 command e1 = Exec_error (Some n) \<and> n \<noteq> 0 \<longrightarrow>
           exit_code (prisma_env w e args) = n)
    \<and> (exec w 1 command e1 = Exec_error None \<longrightarrow> exit_code (prisma_env w e args) = 1)
    \<and> (exec w 1 command e1 \<noteq> Exec_ok \<longrightarrow> exit_code (prisma_env w e args) \<noteq> 0)
    \<and> spawned (prisma_env w e args) = [js ''node generate-schema.cjs'', command]
    \<and> uncaught (prisma_env w e args) = None"
  using assms
  by (auto simp: prisma_env_def Let_def exit_status_def split: exec_result.splits option.splits)

theorem command_exit_code_forwarded_witness:
  "exit_code (prisma_env failing_world [DATABASE_URL \<mapsto> js ''postgresql://host/db''] [js ''prisma'', js ''generate'']) = 3
   \<and> spawned (prisma_env failing_world [DATABASE_URL \<mapsto> js ''postgresql://host/db''] [js ''prisma'', js ''generate'']) =
       [js ''node generate-schema.cjs'', js ''prisma generate'']"
proof -
  let ?e = "[DATABASE_URL \<mapsto> js ''postgresql://host/db'']"
  let ?e1 = "[DATABASE_URL \<mapsto> js ''postgresql://host/db'', DATABASE_PROVIDER \<mapsto> js ''postgresql'',
          DIRECT_URL \<mapsto> js ''postgresql://host/db'']"
  have j: "join_with (js '' '') [js ''prisma'', js ''generate''] = js ''prisma generate''"
    by (simp add: js_def)
  have ne: "js ''prisma generate'' \<noteq> []" by (simp add: js_def)
  have p: "getDatabaseProvider ?e = js ''postgresql''"
    by (simp add: getDatabaseProvider_def startsWith_def js_def)
  have c: "configureDatabaseEnv failing_world (loadEnvFile (env_file failing_world) ?e) = Inr ?e1"
    unfolding configureDatabaseEnv_def set_provider_and_direct_def Let_def
    using p getDatabaseProvider_cong [of "[DATABASE_URL \<mapsto> js ''postgresql://host/db'', DATABASE_PROVIDER \<mapsto> js ''postgresql'']" ?e]
    by (simp add: env_names_distinct failing_world_def unix_world_def loadEnvFile_def) (simp add: js_def)
  have x0: "exec failing_world 0 (js ''node generate-schema.cjs'') ?e1 = Exec_ok"
    by (simp add: failing_world_def)
  have x1: "exec failing_world 1 (js ''prisma generate'') ?e1 = Exec_error (Some 3)"
    by (simp add: failing_world_def)
  show ?thesis
    using command_exit_code_forwarded [OF j ne c x0] x1 by simp
qed

section \<open>Matching and replacement: general lemmas\<close>

text \<open>
  The lemmas of this section hold for every pattern. The central one,
  \<open>match_pat_replace_first\<close>, says that replacing the first match of one pattern by a
  text that begins with the characters \<open>a\<close>, \<open>b\<close> does not change where a second
  pattern matches, as long as no literal of the second pattern contains \<open>a\<close> followed
  by \<open>b\<close> or ends with \<open>a\<close>: the match of the second pattern then lies
  entirely before the replaced text, or the second pattern fails on both texts.
\<close>

lemma begins_withD:
  assumes "begins_with a b m" and "match_pat m t = Some x"
  shows "\<exists>t'. t = a # b # t'"
proof -
  obtain l p where m: "m = Lit (a # b # l) # p"
    using assms(1) by (induction a b m rule: begins_with.induct) auto
  show ?thesis
  proof (cases t)
    case Nil
    then show ?thesis using assms(2) m by simp
  next
    case (Cons c t1)
    then show ?thesis using assms(2) m by (cases t1) (auto split: if_splits)
  qed
qed

lemma begins_with_Nil: "begins_with a b m \<Longrightarrow> match_pat m [] = None"
  using begins_withD [of a b m "[]"] by (cases "match_pat m []") auto

lemma strip_prefix_replace_first:
  assumes m: "begins_with a b m"
    and "safe_lit a b l"
  shows "strip_prefix l (replace_first m (a # b # r) s) =
         map_option (replace_first m (a # b # r)) (strip_prefix l s)"
  using assms(2)
proof (induction l arbitrary: s)
  case Nil
  then show ?case by simp
next
  case (Cons c l)
  show ?case
  proof (cases s)
    case Nil
    have "match_pat m [] = None" using m by (rule begins_with_Nil)
    then show ?thesis using Nil by simp
  next
    case (Cons c' s')
    show ?thesis
    proof (cases "match_pat m (c' # s')")
      case (Some x)
      then obtain t' where t': "c' # s' = a # b # t'" using begins_withD [OF m] by blast
      then have c': "c' = a" and s': "s' = b # t'" by simp_all
      have rf: "replace_first m (a # b # r) s = a # b # r @ x"
        using Some Cons by simp
      show ?thesis
      proof (cases l)
        case Nil
        then have "c \<noteq> a" using Cons.prems by simp
        then show ?thesis using rf \<open>s = c' # s'\<close> c' Nil by simp
      next
        case (Cons d l')
        then have "\<not> (c = a \<and> d = b)" using Cons.prems by simp
        then show ?thesis using rf \<open>s = c' # s'\<close> c' s' Cons by auto
      qed
    next
      case None
      have safe: "safe_lit a b l" using Cons.prems by (cases l) simp_all
      have "replace_first m (a # b # r) s = c' # replace_first m (a # b # r) s'"
        using None Cons by simp
      then show ?thesis using Cons.IH [OF safe, of s'] \<open>s = c' # s'\<close> by simp
    qed
  qed
qed

lemma replace_first_head:
  assumes m: "begins_with a b m"
    and "c \<noteq> a"
  shows "replace_first m r (c # s) = c # replace_first m r s"
proof (cases "match_pat m (c # s)")
  case None
  then show ?thesis by simp
next
  case (Some x)
  then show ?thesis using begins_withD [OF m Some] assms(2) by simp
qed

lemma replace_first_head_cases:
  assumes m: "begins_with a b m"
  shows "(\<exists>x. replace_first m (a # b # r) (c # s) = a # x) \<or>
         replace_first m (a # b # r) (c # s) = c # replace_first m (a # b # r) s"
  by (cases "match_pat m (c # s)") simp_all

lemma match_pat_replace_first:
  assumes m: "begins_with a b m"
    and sp: "\<not> is_space a"
  shows "safe_pat a b p \<Longrightarrow>
         match_pat p (replace_first m (a # b # r) s) =
         map_option (replace_first m (a # b # r)) (match_pat p s)"
proof (induction p s rule: match_pat.induct)
  case (1 s)
  then show ?case by simp
next
  case (2 l p s)
  have sl: "safe_lit a b l" and spp: "safe_pat a b p"
    using "2.prems" by (simp_all add: safe_pat_def)
  show ?case
  proof (cases "strip_prefix l s")
    case None
    then show ?thesis using strip_prefix_replace_first [OF m sl, where r = r and s = s] by simp
  next
    case (Some y)
    then show ?thesis
      using strip_prefix_replace_first [OF m sl, where r = r and s = s] "2.IH" [OF Some spp] by simp
  qed
next
  case (3 p)
  have "match_pat m [] = None" using m by (rule begins_with_Nil)
  then have "replace_first m (a # b # r) [] = []" by simp
  moreover have "safe_pat a b p" using "3.prems" by (simp add: safe_pat_def)
  ultimately show ?case using "3.IH" by simp
next
  case (4 p c s)
  have spp: "safe_pat a b p" using "4.prems" by (simp add: safe_pat_def)
  show ?case
  proof (cases "is_space c")
    case True
    then have "c \<noteq> a" using sp by auto
    then have rf: "replace_first m (a # b # r) (c # s) = c # replace_first m (a # b # r) s"
      using replace_first_head [OF m] by blast
    have ih1: "match_pat (Ws # p) (replace_first m (a # b # r) s) =
               map_option (replace_first m (a # b # r)) (match_pat (Ws # p) s)"
      using "4.IH"(1) [OF True "4.prems"] .
    show ?thesis
    proof (cases "match_pat (Ws # p) s")
      case None
      have "match_pat p (replace_first m (a # b # r) (c # s)) =
            map_option (replace_first m (a # b # r)) (match_pat p (c # s))"
        using "4.IH"(2) [OF True None spp] .
      then show ?thesis using True None ih1 rf by simp
    next
      case (Some y)
      then show ?thesis using True ih1 rf by simp
    qed
  next
    case False
    have ih: "match_pat p (replace_first m (a # b # r) (c # s)) =
            map_option (replace_first m (a # b # r)) (match_pat p (c # s))"
      using "4.IH"(3) [OF False spp] .
    from replace_first_head_cases [OF m, where r = r and c = c and s = s]
    have "match_pat (Ws # p) (replace_first m (a # b # r) (c # s)) =
          match_pat p (replace_first m (a # b # r) (c # s))"
      using sp False by auto
    then show ?thesis using ih False by simp
  qed
next
  case (5 p s)
  then show ?case by simp
next
  case (6 l ls p s)
  have sl: "safe_lit a b l" and spp: "safe_pat a b p" and spa: "safe_pat a b (Alt ls # p)"
    using "6.prems" by (simp_all add: safe_pat_def)
  let ?rf = "replace_first m (a # b # r)"
  let ?inner = "\<lambda>s. case strip_prefix l s of None \<Rightarrow> None | Some y \<Rightarrow> match_pat p y"
  have inner: "?inner (?rf s) = map_option ?rf (?inner s)"
  proof (cases "strip_prefix l s")
    case None
    then show ?thesis using strip_prefix_replace_first [OF m sl, where r = r and s = s] by simp
  next
    case (Some y)
    then show ?thesis
      using strip_prefix_replace_first [OF m sl, where r = r and s = s] "6.IH"(1) [OF Some spp] by simp
  qed
  show ?case
  proof (cases "?inner s")
    case None
    then have "?inner (?rf s) = None" using inner by simp
    then show ?thesis using None "6.IH"(2) [OF None spa] by simp
  next
    case (Some y)
    then have "?inner (?rf s) = Some (?rf y)" using inner by simp
    then show ?thesis using Some by simp
  qed
qed

text \<open>The same for a pattern that begins with a literal, one character before the text.\<close>

lemma match_pat_Cons_replace_first:
  assumes m: "begins_with a b m"
    and sp: "\<not> is_space a"
    and safe: "safe_pat a b (Lit l # p)"
  shows "match_pat (Lit (c0 # l) # p) (c # replace_first m (a # b # r) s) =
         map_option (replace_first m (a # b # r)) (match_pat (Lit (c0 # l) # p) (c # s))"
proof -
  have "match_pat (Lit (c0 # l) # p) (c # t) = (if c0 = c then match_pat (Lit l # p) t else None)"
    for t by simp
  then show ?thesis using match_pat_replace_first [OF m sp safe, where r = r and s = s] by simp
qed

lemma strip_prefix_Some: "strip_prefix l s = Some r \<Longrightarrow> s = l @ r"
  by (induction l s rule: strip_prefix.induct) (auto split: if_splits)

lemma match_pat_split:
  "match_pat p t = Some x \<Longrightarrow>
   \<exists>w. t = w @ x \<and> (\<forall>c\<in>set w. is_space c \<or> c \<in> pat_chars p)"
proof (induction p t arbitrary: x rule: match_pat.induct)
  case (1 s)
  then show ?case by simp
next
  case (2 l p s)
  then obtain y where y: "strip_prefix l s = Some y" and my: "match_pat p y = Some x"
    by (auto split: option.splits)
  from "2.IH" [OF y my] obtain w where w: "y = w @ x" "\<forall>c\<in>set w. is_space c \<or> c \<in> pat_chars p"
    by blast
  have "s = (l @ w) @ x" using strip_prefix_Some [OF y] w(1) by simp
  moreover have "\<forall>c\<in>set (l @ w). is_space c \<or> c \<in> pat_chars (Lit l # p)"
    using w(2) by (auto simp: pat_chars_def)
  ultimately show ?case by blast
next
  case (3 p)
  from "3.IH" [of x] "3.prems" show ?case by (auto simp: pat_chars_def)
next
  case (4 p c s)
  show ?case
  proof (cases "is_space c")
    case True
    show ?thesis
    proof (cases "match_pat (Ws # p) s")
      case None
      then have "match_pat p (c # s) = Some x" using "4.prems" True by simp
      from "4.IH"(2) [OF True None this] show ?thesis by (auto simp: pat_chars_def)
    next
      case (Some y)
      then have "y = x" using "4.prems" True by simp
      with "4.IH"(1) [OF True, of x] Some obtain w where
        w: "s = w @ x" "\<forall>c\<in>set w. is_space c \<or> c \<in> pat_chars (Ws # p)" by blast
      have "c # s = (c # w) @ x" using w(1) by simp
      moreover have "\<forall>d\<in>set (c # w). is_space d \<or> d \<in> pat_chars (Ws # p)"
        using w(2) True by simp
      ultimately show ?thesis by blast
    qed
  next
    case False
    then have "match_pat p (c # s) = Some x" using "4.prems" by simp
    from "4.IH"(3) [OF False this] show ?thesis by (auto simp: pat_chars_def)
  qed
next
  case (5 p s)
  then show ?case by simp
next
  case (6 l ls p s)
  let ?inner = "case strip_prefix l s of None \<Rightarrow> None | Some y \<Rightarrow> match_pat p y"
  show ?case
  proof (cases ?inner)
    case None
    then have "match_pat (Alt ls # p) s = Some x" using "6.prems" by simp
    from "6.IH"(2) [OF None this] show ?thesis by (auto simp: pat_chars_def)
  next
    case (Some z)
    then have zx: "z = x" using "6.prems" by simp
    from Some obtain y where y: "strip_prefix l s = Some y" and my: "match_pat p y = Some z"
      by (auto split: option.splits)
    from "6.IH"(1) [OF y] my zx obtain w where
      w: "y = w @ x" "\<forall>c\<in>set w. is_space c \<or> c \<in> pat_chars p" by blast
    have "s = (l @ w) @ x" using strip_prefix_Some [OF y] w(1) by simp
    moreover have "\<forall>c\<in>set (l @ w). is_space c \<or> c \<in> pat_chars (Alt (l # ls) # p)"
      using w(2) by (auto simp: pat_chars_def)
    ultimately show ?thesis by blast
  qed
qed

text \<open>
  The matcher and the languages agree: when \<open>match_pat\<close> succeeds it has consumed a
  text of the pattern's language, and it succeeds whenever the text begins with one. So
  \<open>replace_first\<close> finds the leftmost position at which the regular expression
  matches.
\<close>

lemma strip_prefix_append: "strip_prefix l (l @ r) = Some r"
  by (induction l) simp_all

lemma match_pat_sound:
  "match_pat p t = Some x \<Longrightarrow> \<exists>w. t = w @ x \<and> matches p w"
proof (induction p t arbitrary: x rule: match_pat.induct)
  case (1 s)
  then show ?case using matches_Nil by simp
next
  case (2 l p s)
  then obtain y where y: "strip_prefix l s = Some y" and my: "match_pat p y = Some x"
    by (auto split: option.splits)
  from "2.IH" [OF y my] obtain w where w: "y = w @ x" "matches p w" by blast
  have "s = (l @ w) @ x" using strip_prefix_Some [OF y] w(1) by simp
  then show ?case using matches_Lit [OF w(2)] by blast
next
  case (3 p)
  from "3.IH" [of x] "3.prems" obtain w where w: "[] = w @ x" "matches p w" by auto
  then have "matches (Ws # p) ([] @ w)" by (intro matches_Ws) simp_all
  then show ?case using w(1) by auto
next
  case (4 p c s)
  have skip: "\<exists>w. c # s = w @ x \<and> matches (Ws # p) w" if "match_pat p (c # s) = Some x"
    and ih: "match_pat p (c # s) = Some x \<Longrightarrow> \<exists>w. c # s = w @ x \<and> matches p w"
  proof -
    from ih [OF that(1)] obtain w where w: "c # s = w @ x" "matches p w" by blast
    have "matches (Ws # p) ([] @ w)" using w(2) by (intro matches_Ws) simp_all
    then show ?thesis using w(1) by auto
  qed
  show ?case
  proof (cases "is_space c")
    case True
    show ?thesis
    proof (cases "match_pat (Ws # p) s")
      case None
      then have "match_pat p (c # s) = Some x" using "4.prems" True by simp
      then show ?thesis using skip "4.IH"(2) [OF True None] by blast
    next
      case (Some y)
      then have "y = x" using "4.prems" True by simp
      with "4.IH"(1) [OF True, of x] Some obtain w where
        w: "s = w @ x" "matches (Ws # p) w" by blast
      from w(2) obtain ws w' where ws: "w = ws @ w'" "matches p w'" "list_all is_space ws"
        by (auto elim: matches.cases)
      have "matches (Ws # p) ((c # ws) @ w')" using ws(2,3) True by (intro matches_Ws) simp_all
      then show ?thesis using w(1) ws(1) by auto
    qed
  next
    case False
    then have "match_pat p (c # s) = Some x" using "4.prems" by simp
    then show ?thesis using skip "4.IH"(3) [OF False] by blast
  qed
next
  case (5 p s)
  then show ?case by simp
next
  case (6 l ls p s)
  let ?inner = "case strip_prefix l s of None \<Rightarrow> None | Some y \<Rightarrow> match_pat p y"
  show ?case
  proof (cases ?inner)
    case None
    then have "match_pat (Alt ls # p) s = Some x" using "6.prems" by simp
    from "6.IH"(2) [OF None this] obtain w where w: "s = w @ x" "matches (Alt ls # p) w" by blast
    from w(2) obtain l' w' where l': "w = l' @ w'" "matches p w'" "l' \<in> set ls"
      by (auto elim: matches.cases)
    have "matches (Alt (l # ls) # p) (l' @ w')" using l'(2,3) by (intro matches_Alt) simp_all
    then show ?thesis using w(1) l'(1) by auto
  next
    case (Some z)
    then have zx: "z = x" using "6.prems" by simp
    from Some obtain y where y: "strip_prefix l s = Some y" and my: "match_pat p y = Some z"
      by (auto split: option.splits)
    from "6.IH"(1) [OF y] my zx obtain w where w: "y = w @ x" "matches p w" by blast
    have "s = (l @ w) @ x" using strip_prefix_Some [OF y] w(1) by simp
    moreover have "matches (Alt (l # ls) # p) (l @ w)" using w(2) by (intro matches_Alt) simp_all
    ultimately show ?thesis by blast
  qed
qed

lemma match_pat_Ws_complete:
  assumes "match_pat p t \<noteq> None"
  shows "list_all is_space ws \<Longrightarrow> match_pat (Ws # p) (ws @ t) \<noteq> None"
proof (induction ws)
  case Nil
  show ?case
  proof (cases t)
    case Nil
    then show ?thesis using assms by simp
  next
    case (Cons c s)
    then show ?thesis using assms by (cases "match_pat (Ws # p) s") auto
  qed
next
  case (Cons c ws)
  then show ?case by (cases "match_pat (Ws # p) (ws @ t)") auto
qed

lemma match_pat_Alt_complete:
  assumes "match_pat p t \<noteq> None"
  shows "l \<in> set ls \<Longrightarrow> match_pat (Alt ls # p) (l @ t) \<noteq> None"
proof (induction ls)
  case Nil
  then show ?case by simp
next
  case (Cons a ls)
  show ?case
  proof (cases "case strip_prefix a (l @ t) of None \<Rightarrow> None | Some y \<Rightarrow> match_pat p y")
    case None
    then have "l \<noteq> a" using assms by (auto simp: strip_prefix_append)
    then show ?thesis using Cons None by simp
  next
    case (Some y)
    then show ?thesis by simp
  qed
qed

lemma match_pat_complete:
  "matches p w \<Longrightarrow> match_pat p (w @ x) \<noteq> None"
proof (induction rule: matches.induct)
  case matches_Nil
  then show ?case by simp
next
  case (matches_Lit p w l)
  then show ?case by (simp add: strip_prefix_append)
next
  case (matches_Ws p w ws)
  then show ?case using match_pat_Ws_complete [of p "w @ x" ws] by simp
next
  case (matches_Alt p w l ls)
  then show ?case using match_pat_Alt_complete [of p "w @ x" l ls] by simp
qed

lemma match_pat_iff_matches:
  "match_pat p t \<noteq> None \<longleftrightarrow> (\<exists>w x. t = w @ x \<and> matches p w)"
proof
  assume "match_pat p t \<noteq> None"
  then obtain x where "match_pat p t = Some x" by auto
  then show "\<exists>w x. t = w @ x \<and> matches p w" using match_pat_sound by blast
next
  assume "\<exists>w x. t = w @ x \<and> matches p w"
  then obtain w x where "t = w @ x" "matches p w" by blast
  then show "match_pat p t \<noteq> None" using match_pat_complete by blast
qed

lemma match_pat_suffix: "match_pat p t = Some x \<Longrightarrow> suffix x t"
  using match_pat_split [of p t x] by (auto simp: suffix_def)

lemma match_pat_shorter:
  assumes "match_pat (Lit (c0 # l) # p) t = Some x"
  shows "length x < length t"
proof (cases t)
  case Nil
  then show ?thesis using assms by simp
next
  case (Cons c s)
  then obtain y where y: "strip_prefix l s = Some y" and my: "match_pat p y = Some x"
    using assms by (auto split: if_splits option.splits)
  have "length x \<le> length y" using match_pat_suffix [OF my] by (auto simp: suffix_def)
  moreover have "length y \<le> length s" using strip_prefix_Some [OF y] by simp
  ultimately show ?thesis using Cons by simp
qed

lemma has_match_append: "has_match p x \<Longrightarrow> has_match p (w @ x)"
  by (induction w) simp_all

lemma has_match_suffix: "suffix x t \<Longrightarrow> has_match p x \<Longrightarrow> has_match p t"
  by (auto simp: suffix_def has_match_append)


lemma occurrences_0: "occurrences p s = 0 \<longleftrightarrow> \<not> has_match p s"
  by (induction s) simp_all

lemma replace_first_no_match: "\<not> has_match p s \<Longrightarrow> replace_first p r s = s"
  by (induction s) auto

lemma match_at_has_match: "match_pat p s \<noteq> None \<Longrightarrow> has_match p s"
  by (cases s) simp_all

lemma replace_first_match:
  "match_pat p s = Some x \<Longrightarrow> replace_first p r s = r @ x"
  by (cases s) simp_all

text \<open>Replacing the first match by a text that is itself a match, twice.\<close>

lemma replace_first_idem:
  assumes bw: "begins_with a b (Lit (c0 # l) # p)"
    and sp: "\<not> is_space a"
    and safe: "safe_pat a b (Lit l # p)"
    and self: "\<And>x. match_pat (Lit (c0 # l) # p) (a # b # r @ x) = Some x"
  shows "replace_first (Lit (c0 # l) # p) (a # b # r)
           (replace_first (Lit (c0 # l) # p) (a # b # r) s) =
         replace_first (Lit (c0 # l) # p) (a # b # r) s"
proof (induction s)
  case Nil
  then show ?case using begins_with_Nil [OF bw] by simp
next
  case (Cons c s)
  let ?P = "Lit (c0 # l) # p" and ?R = "a # b # r"
  show ?case
  proof (cases "match_pat ?P (c # s)")
    case None
    have "match_pat ?P (c # replace_first ?P ?R s) = None"
      using match_pat_Cons_replace_first [OF bw sp safe, where r = r and s = s and c = c and ?c0.0 = c0]
        None by simp
    then show ?thesis using None Cons.IH by simp
  next
    case (Some x)
    then have "replace_first ?P ?R (c # s) = ?R @ x" by simp
    moreover have "replace_first ?P ?R (?R @ x) = ?R @ x"
      using self [of x] by simp
    ultimately show ?thesis by simp
  qed
qed

text \<open>Two replacements whose patterns begin with different characters commute.\<close>

lemma replace_first_commute:
  assumes bw1: "begins_with a1 b1 (Lit (c1 # l1) # p1)"
    and bw2: "begins_with a2 b2 (Lit (c2 # l2) # p2)"
    and sp1: "\<not> is_space a1" and sp2: "\<not> is_space a2"
    and safe12: "safe_pat a2 b2 (Lit l1 # p1)"
    and safe21: "safe_pat a1 b1 (Lit l2 # p2)"
    and ne: "c1 \<noteq> c2"
    and in2: "\<And>x. replace_first (Lit (c1 # l1) # p1) (a1 # b1 # r1) (a2 # b2 # r2 @ x) =
                  a2 # b2 # r2 @ replace_first (Lit (c1 # l1) # p1) (a1 # b1 # r1) x"
    and in1: "\<And>x. replace_first (Lit (c2 # l2) # p2) (a2 # b2 # r2) (a1 # b1 # r1 @ x) =
                  a1 # b1 # r1 @ replace_first (Lit (c2 # l2) # p2) (a2 # b2 # r2) x"
  shows "replace_first (Lit (c1 # l1) # p1) (a1 # b1 # r1)
           (replace_first (Lit (c2 # l2) # p2) (a2 # b2 # r2) s) =
         replace_first (Lit (c2 # l2) # p2) (a2 # b2 # r2)
           (replace_first (Lit (c1 # l1) # p1) (a1 # b1 # r1) s)"
proof (induction s)
  case Nil
  then show ?case using begins_with_Nil [OF bw1] begins_with_Nil [OF bw2] by simp
next
  case (Cons c s)
  let ?P1 = "Lit (c1 # l1) # p1" and ?R1 = "a1 # b1 # r1"
  let ?P2 = "Lit (c2 # l2) # p2" and ?R2 = "a2 # b2 # r2"
  have t1: "match_pat ?P1 (c # replace_first ?P2 ?R2 s) =
            map_option (replace_first ?P2 ?R2) (match_pat ?P1 (c # s))"
    by (rule match_pat_Cons_replace_first [OF bw2 sp2 safe12])
  have t2: "match_pat ?P2 (c # replace_first ?P1 ?R1 s) =
            map_option (replace_first ?P1 ?R1) (match_pat ?P2 (c # s))"
    by (rule match_pat_Cons_replace_first [OF bw1 sp1 safe21])
  have excl: "match_pat ?P1 (c # s) = None \<or> match_pat ?P2 (c # s) = None"
    using ne by auto
  show ?case
  proof (cases "match_pat ?P1 (c # s)")
    case None
    note n1 = None
    show ?thesis
    proof (cases "match_pat ?P2 (c # s)")
      case None
      then show ?thesis using n1 t1 t2 Cons.IH by simp
    next
      case (Some x)
      have "replace_first ?P2 ?R2 (c # s) = ?R2 @ x" using Some by simp
      then have l: "replace_first ?P1 ?R1 (replace_first ?P2 ?R2 (c # s)) =
                 ?R2 @ replace_first ?P1 ?R1 x" using in2 [of x] by simp
      have "replace_first ?P1 ?R1 (c # s) = c # replace_first ?P1 ?R1 s" using n1 by simp
      moreover have "match_pat ?P2 (c # replace_first ?P1 ?R1 s) = Some (replace_first ?P1 ?R1 x)"
        using t2 Some by simp
      ultimately have "replace_first ?P2 ?R2 (replace_first ?P1 ?R1 (c # s)) =
                 ?R2 @ replace_first ?P1 ?R1 x" by simp
      then show ?thesis using l by simp
    qed
  next
    case (Some x)
    then have n2: "match_pat ?P2 (c # s) = None" using excl by simp
    have "replace_first ?P1 ?R1 (c # s) = ?R1 @ x" using Some by simp
    then have l: "replace_first ?P2 ?R2 (replace_first ?P1 ?R1 (c # s)) =
               ?R1 @ replace_first ?P2 ?R2 x" using in1 [of x] by simp
    have "replace_first ?P2 ?R2 (c # s) = c # replace_first ?P2 ?R2 s" using n2 by simp
    moreover have "match_pat ?P1 (c # replace_first ?P2 ?R2 s) = Some (replace_first ?P2 ?R2 x)"
      using t1 Some by simp
    ultimately have "replace_first ?P1 ?R1 (replace_first ?P2 ?R2 (c # s)) =
               ?R1 @ replace_first ?P2 ?R2 x" by simp
    then show ?thesis using l by simp
  qed
qed

text \<open>A replacement creates no match of a pattern that does not match inside the new text.\<close>

lemma replace_first_no_new_match:
  assumes bw: "begins_with a b m"
    and sp: "\<not> is_space a"
    and safe: "safe_pat a b (Lit l # p)"
    and inside: "\<And>x. has_match (Lit (c0 # l) # p) (a # b # r @ x) \<Longrightarrow>
                     has_match (Lit (c0 # l) # p) x"
  shows "has_match (Lit (c0 # l) # p) (replace_first m (a # b # r) s) \<Longrightarrow>
         has_match (Lit (c0 # l) # p) s"
proof (induction s)
  case Nil
  then show ?case using begins_with_Nil [OF bw] by simp
next
  case (Cons c s)
  let ?P = "Lit (c0 # l) # p" and ?R = "a # b # r"
  show ?case
  proof (cases "match_pat m (c # s)")
    case None
    then have "has_match ?P (c # replace_first m ?R s)" using Cons.prems by simp
    then have "match_pat ?P (c # replace_first m ?R s) \<noteq> None \<or>
               has_match ?P (replace_first m ?R s)" by simp
    then show ?thesis
    proof
      assume "match_pat ?P (c # replace_first m ?R s) \<noteq> None"
      then have "match_pat ?P (c # s) \<noteq> None"
        using match_pat_Cons_replace_first [OF bw sp safe, where r = r and s = s and c = c and ?c0.0 = c0]
        by (cases "match_pat ?P (c # s)") simp_all
      then show ?thesis by simp
    next
      assume "has_match ?P (replace_first m ?R s)"
      then show ?thesis using Cons.IH by simp
    qed
  next
    case (Some x)
    have "replace_first m ?R (c # s) = a # b # r @ x"
      using replace_first_match [OF Some, of ?R] by simp
    then have "has_match ?P (a # b # r @ x)" using Cons.prems by (simp only:)
    then have "has_match ?P x" by (rule inside)
    then show ?thesis using match_pat_suffix [OF Some] has_match_suffix by blast
  qed
qed


lemma replace_first_removes_single:
  assumes bw: "begins_with a b (Lit (c0 # l) # p)"
    and sp: "\<not> is_space a"
    and safe: "safe_pat a b (Lit l # p)"
    and inside: "\<And>x. has_match (Lit (c0 # l) # p) (a # b # r @ x) \<Longrightarrow>
                     has_match (Lit (c0 # l) # p) x"
  shows "occurrences (Lit (c0 # l) # p) s \<le> 1 \<Longrightarrow>
         \<not> has_match (Lit (c0 # l) # p) (replace_first (Lit (c0 # l) # p) (a # b # r) s)"
proof (induction s)
  case Nil
  then show ?case using begins_with_Nil [OF bw] by simp
next
  case (Cons c s)
  let ?P = "Lit (c0 # l) # p" and ?R = "a # b # r"
  show ?case
  proof (cases "match_pat ?P (c # s)")
    case None
    then have "occurrences ?P s \<le> 1" using Cons.prems by simp
    then have "\<not> has_match ?P (replace_first ?P ?R s)" by (rule Cons.IH)
    moreover have "match_pat ?P (c # replace_first ?P ?R s) = None"
      using match_pat_Cons_replace_first [OF bw sp safe, where r = r and s = s and c = c and ?c0.0 = c0]
        None by simp
    ultimately show ?thesis using None by simp
  next
    case (Some x)
    then have "occurrences ?P s = 0" using Cons.prems by simp
    then have nm: "\<not> has_match ?P s" by (simp add: occurrences_0)
    obtain w where w: "c # s = w @ x" using match_pat_split [OF Some] by blast
    have "w \<noteq> []"
    proof
      assume "w = []"
      then have "x = c # s" using w by simp
      then have "match_pat ?P (c # s) = Some (c # s)" using Some by simp
      then show False using match_pat_shorter by blast
    qed
    then obtain w' where "w = c # w'" using w by (cases w) auto
    then have "s = w' @ x" using w by simp
    then have "\<not> has_match ?P x" using nm has_match_append by blast
    then have "\<not> has_match ?P (a # b # r @ x)" using inside [of x] by blast
    moreover have "replace_first ?P ?R (c # s) = a # b # r @ x"
      using replace_first_match [OF Some, of ?R] by simp
    ultimately show ?thesis by (simp only: not_False_eq_True)
  qed
qed

lemma startsWith_append: "startsWith s t \<Longrightarrow> \<exists>y. s = t @ y"
  unfolding startsWith_def by (metis append_take_drop_id)

lemma startsWith_self: "startsWith (t @ y) t"
  by (simp add: startsWith_def)

lemma contains_append: "contains t x \<Longrightarrow> contains t (w @ x)"
  by (induction w) simp_all

lemma contains_self: "contains t (t @ y)"
proof (cases "t @ y")
  case Nil
  then show ?thesis by simp
next
  case (Cons c s)
  then show ?thesis using startsWith_self [of t y] by simp
qed

lemma contains_free_prefix:
  "\<forall>c\<in>set w. c \<noteq> c0 \<Longrightarrow> contains (c0 # t) (w @ x) = contains (c0 # t) x"
  by (induction w) (auto simp: startsWith_def)

lemma replace_first_contains:
  "has_match m s \<Longrightarrow> contains r (replace_first m r s)"
proof (induction s)
  case Nil
  then show ?case using contains_self [of r] by auto
next
  case (Cons c s)
  show ?case
  proof (cases "match_pat m (c # s)")
    case None
    then show ?thesis using Cons by simp
  next
    case (Some x)
    then show ?thesis using contains_self [of r x] by simp
  qed
qed

lemma replace_all_no_match: "\<not> has_match p s \<Longrightarrow> replace_all p r s = s"
  by (induction s) auto

text \<open>A text survives a replacement when the pattern matches neither inside nor across it.\<close>

lemma replace_first_keeps_text:
  assumes free: "c0 \<notin> pat_chars m" and sp: "\<not> is_space c0"
    and inside: "\<And>y. replace_first m r (t @ y) = t @ replace_first m r y"
  shows "contains (c0 # t) s \<Longrightarrow> contains (c0 # t) (replace_first m r s)"
proof (induction s)
  case Nil
  then show ?case by simp
next
  case (Cons c s)
  show ?case
  proof (cases "match_pat m (c # s)")
    case None
    have "startsWith (c # s) (c0 # t) \<or> contains (c0 # t) s" using Cons.prems by simp
    then show ?thesis
    proof
      assume "startsWith (c # s) (c0 # t)"
      then obtain y where "c # s = (c0 # t) @ y" using startsWith_append by blast
      then have c: "c = c0" and s: "s = t @ y" by simp_all
      have "contains (c0 # t) ((c0 # t) @ replace_first m r y)" by (rule contains_self)
      then show ?thesis using None c s inside [of y] by simp
    next
      assume "contains (c0 # t) s"
      then show ?thesis using None Cons.IH by simp
    qed
  next
    case (Some x)
    obtain w where w: "c # s = w @ x" "\<forall>c\<in>set w. is_space c \<or> c \<in> pat_chars m"
      using match_pat_split [OF Some] by blast
    have "\<forall>c\<in>set w. c \<noteq> c0" using w(2) free sp by auto
    then have "contains (c0 # t) x"
      using contains_free_prefix [of w c0 t x] Cons.prems w(1) by simp
    then have "contains (c0 # t) (r @ x)" by (rule contains_append)
    then show ?thesis using Some by simp
  qed
qed


section \<open>The patterns of the schema generator\<close>

lemma provider_placeholder_eq:
  "provider_placeholder =
     Lit (112 # js ''rovider'') # [Ws, Lit (js ''=''), Ws, Lit (js ''env(\"DATABASE_PROVIDER\")'')]"
  by (simp add: provider_placeholder_def js_def)

lemma provider_literal_eq:
  "provider_literal =
     Lit (112 # js ''rovider'') #
       [Ws, Lit (js ''=''), Ws, Lit (js ''\"''), Alt [js ''postgresql'', js ''sqlite''],
        Lit (js ''\"'')]"
  by (simp add: provider_literal_def js_def)

lemma directUrl_field_eq:
  "directUrl_field =
     Lit (100 # js ''irectUrl'') # [Ws, Lit (js ''=''), Ws, Lit (js ''env(\"DIRECT_URL\")'')]"
  by (simp add: directUrl_field_def js_def)

lemma provider_decl_postgresql_eq:
  "provider_decl (js ''postgresql'') = 112 # 114 # js ''ovider = \"postgresql\"''"
  by (simp add: provider_decl_def js_def)

lemma provider_decl_sqlite_eq:
  "provider_decl (js ''sqlite'') = 112 # 114 # js ''ovider = \"sqlite\"''"
  by (simp add: provider_decl_def js_def)

lemma directUrl_decl_eq:
  "directUrl_decl = 100 # 105 # js ''rectUrl = env(\"DIRECT_URL\")''"
  by (simp add: directUrl_decl_def js_def)

lemma not_is_space_112: "\<not> is_space 112"
  by (simp add: is_space_def)

lemma begins_with_patterns:
  "begins_with 112 114 provider_placeholder"
  "begins_with 112 114 provider_literal"
  "begins_with 100 105 directUrl_field"
  by (simp_all add: provider_placeholder_eq provider_literal_eq directUrl_field_eq js_def)

text \<open>The provider literal, replaced twice.\<close>

lemma provider_literal_self:
  "p = js ''postgresql'' \<or> p = js ''sqlite'' \<Longrightarrow>
   match_pat provider_literal (provider_decl p @ x) = Some x"
  by (auto simp: provider_literal_def provider_decl_def js_def is_space_def)

lemma directUrl_field_self: "match_pat directUrl_field (directUrl_decl @ x) = Some x"
  by (simp add: directUrl_field_def directUrl_decl_def js_def is_space_def)

lemma replace_literal_idem:
  assumes "p = js ''postgresql'' \<or> p = js ''sqlite''"
  shows "replace_first provider_literal (provider_decl p)
           (replace_first provider_literal (provider_decl p) s) =
         replace_first provider_literal (provider_decl p) s"
proof -
  have self: "match_pat provider_literal (provider_decl p @ x) = Some x" for x
    using assms by (rule provider_literal_self)
  from assms show ?thesis
  proof
    assume p: "p = js ''postgresql''"
    show ?thesis
      using self unfolding p provider_literal_eq provider_decl_postgresql_eq
      by (intro replace_first_idem [where a = 112 and b = 114])
        (simp_all add: js_def safe_pat_def is_space_def)
  next
    assume p: "p = js ''sqlite''"
    show ?thesis
      using self unfolding p provider_literal_eq provider_decl_sqlite_eq
      by (intro replace_first_idem [where a = 112 and b = 114])
        (simp_all add: js_def safe_pat_def is_space_def)
  qed
qed

lemma replace_directUrl_idem:
  "replace_first directUrl_field directUrl_decl (replace_first directUrl_field directUrl_decl s) =
   replace_first directUrl_field directUrl_decl s"
  using directUrl_field_self unfolding directUrl_field_eq directUrl_decl_eq
  by (intro replace_first_idem [where a = 100 and b = 105])
    (simp_all add: js_def safe_pat_def is_space_def)

lemma replace_placeholder_directUrl_commute:
  assumes "p = js ''postgresql'' \<or> p = js ''sqlite''"
  shows "replace_first provider_placeholder (provider_decl p)
           (replace_first directUrl_field directUrl_decl s) =
         replace_first directUrl_field directUrl_decl
           (replace_first provider_placeholder (provider_decl p) s)"
  using assms
proof
  assume p: "p = js ''postgresql''"
  show ?thesis
    unfolding p provider_placeholder_eq directUrl_field_eq provider_decl_postgresql_eq
      directUrl_decl_eq
    by (intro replace_first_commute [where ?a1.0 = 112 and ?b1.0 = 114 and ?a2.0 = 100 and ?b2.0 = 105])
      (simp_all add: js_def safe_pat_def is_space_def)
next
  assume p: "p = js ''sqlite''"
  show ?thesis
    unfolding p provider_placeholder_eq directUrl_field_eq provider_decl_sqlite_eq
      directUrl_decl_eq
    by (intro replace_first_commute [where ?a1.0 = 112 and ?b1.0 = 114 and ?a2.0 = 100 and ?b2.0 = 105])
      (simp_all add: js_def safe_pat_def is_space_def)
qed

lemma replace_literal_directUrl_commute:
  assumes "p = js ''postgresql'' \<or> p = js ''sqlite''"
  shows "replace_first provider_literal (provider_decl p)
           (replace_first directUrl_field directUrl_decl s) =
         replace_first directUrl_field directUrl_decl
           (replace_first provider_literal (provider_decl p) s)"
  using assms
proof
  assume p: "p = js ''postgresql''"
  show ?thesis
    unfolding p provider_literal_eq directUrl_field_eq provider_decl_postgresql_eq
      directUrl_decl_eq
    by (intro replace_first_commute [where ?a1.0 = 112 and ?b1.0 = 114 and ?a2.0 = 100 and ?b2.0 = 105])
      (simp_all add: js_def safe_pat_def is_space_def)
next
  assume p: "p = js ''sqlite''"
  show ?thesis
    unfolding p provider_literal_eq directUrl_field_eq provider_decl_sqlite_eq
      directUrl_decl_eq
    by (intro replace_first_commute [where ?a1.0 = 112 and ?b1.0 = 114 and ?a2.0 = 100 and ?b2.0 = 105])
      (simp_all add: js_def safe_pat_def is_space_def)
qed

lemma placeholder_not_in_decl:
  assumes "p = js ''postgresql'' \<or> p = js ''sqlite''"
  shows "has_match provider_placeholder (provider_decl p @ x) = has_match provider_placeholder x"
  using assms by (auto simp: provider_placeholder_def provider_decl_def js_def is_space_def)

lemma single_placeholder_removed:
  assumes "p = js ''postgresql'' \<or> p = js ''sqlite''"
    and "occurrences provider_placeholder s \<le> 1"
  shows "\<not> has_match provider_placeholder (replace_first provider_placeholder (provider_decl p) s)"
  using assms(1)
proof
  assume p: "p = js ''postgresql''"
  have "has_match provider_placeholder (provider_decl p @ x) \<Longrightarrow>
        has_match provider_placeholder x" for x
    using placeholder_not_in_decl [OF assms(1)] by simp
  then show ?thesis
    using assms(2) unfolding p provider_placeholder_eq provider_decl_postgresql_eq
    by (intro replace_first_removes_single [where a = 112 and b = 114])
      (simp_all add: js_def safe_pat_def is_space_def)
next
  assume p: "p = js ''sqlite''"
  have "has_match provider_placeholder (provider_decl p @ x) \<Longrightarrow>
        has_match provider_placeholder x" for x
    using placeholder_not_in_decl [OF assms(1)] by simp
  then show ?thesis
    using assms(2) unfolding p provider_placeholder_eq provider_decl_sqlite_eq
    by (intro replace_first_removes_single [where a = 112 and b = 114])
      (simp_all add: js_def safe_pat_def is_space_def)
qed

lemma literal_replacement_no_placeholder:
  assumes "p = js ''postgresql'' \<or> p = js ''sqlite''"
    and "has_match provider_placeholder (replace_first provider_literal (provider_decl p) s)"
  shows "has_match provider_placeholder s"
  using assms(1)
proof
  assume p: "p = js ''postgresql''"
  have "has_match provider_placeholder (provider_decl p @ x) \<Longrightarrow>
        has_match provider_placeholder x" for x
    using placeholder_not_in_decl [OF assms(1)] by simp
  then show ?thesis
    using assms(2) begins_with_patterns(2)
    unfolding p provider_placeholder_eq provider_decl_postgresql_eq
    by (elim replace_first_no_new_match [where a = 112 and b = 114, rotated 4])
      (simp_all add: js_def safe_pat_def is_space_def)
next
  assume p: "p = js ''sqlite''"
  have "has_match provider_placeholder (provider_decl p @ x) \<Longrightarrow>
        has_match provider_placeholder x" for x
    using placeholder_not_in_decl [OF assms(1)] by simp
  then show ?thesis
    using assms(2) begins_with_patterns(2)
    unfolding p provider_placeholder_eq provider_decl_sqlite_eq
    by (elim replace_first_no_new_match [where a = 112 and b = 114, rotated 4])
      (simp_all add: js_def safe_pat_def is_space_def)
qed

lemma provider_replacement_idem:
  assumes p: "p = js ''postgresql'' \<or> p = js ''sqlite''"
    and one: "occurrences provider_placeholder s \<le> 1"
  shows "replace_first provider_literal (provider_decl p)
           (replace_first provider_placeholder (provider_decl p)
             (replace_first provider_literal (provider_decl p)
               (replace_first provider_placeholder (provider_decl p) s))) =
         replace_first provider_literal (provider_decl p)
           (replace_first provider_placeholder (provider_decl p) s)"
proof -
  let ?s1 = "replace_first provider_placeholder (provider_decl p) s"
  let ?s2 = "replace_first provider_literal (provider_decl p) ?s1"
  have "\<not> has_match provider_placeholder ?s1" using p one by (rule single_placeholder_removed)
  then have "\<not> has_match provider_placeholder ?s2"
    using literal_replacement_no_placeholder [OF p] by blast
  then have "replace_first provider_placeholder (provider_decl p) ?s2 = ?s2"
    by (rule replace_first_no_match)
  then show ?thesis using replace_literal_idem [OF p] by simp
qed

lemma generate_postgresql_idem:
  assumes "occurrences provider_placeholder s \<le> 1"
  shows "generate (generate s (js ''postgresql'')) (js ''postgresql'') =
         generate s (js ''postgresql'')"
proof -
  let ?d = "provider_decl (js ''postgresql'')"
  let ?A = "replace_first provider_placeholder ?d"
  let ?B = "replace_first provider_literal ?d"
  let ?C = "replace_first directUrl_field directUrl_decl"
  have p: "js ''postgresql'' = js ''postgresql'' \<or> js ''postgresql'' = js ''sqlite''" by simp
  have g: "generate t (js ''postgresql'') = ?C (?B (?A t))" for t
    by (simp add: generate_def)
  have "?C (?B (?A (?C (?B (?A s))))) = ?C (?B (?C (?A (?B (?A s)))))"
    using replace_placeholder_directUrl_commute [OF p] by simp
  also have "\<dots> = ?C (?C (?B (?A (?B (?A s)))))"
    using replace_literal_directUrl_commute [OF p] by simp
  also have "\<dots> = ?C (?B (?A (?B (?A s))))"
    using replace_directUrl_idem by simp
  also have "\<dots> = ?C (?B (?A s))"
    using provider_replacement_idem [OF p assms] by simp
  finally show ?thesis by (simp only: g)
qed

lemma contains_has_match:
  assumes self: "\<And>y. match_pat m (t @ y) \<noteq> None"
  shows "contains t s \<Longrightarrow> has_match m s"
proof (induction s)
  case Nil
  then have "t = []" by simp
  then show ?case using self [of "[]"] by simp
next
  case (Cons c s)
  have "startsWith (c # s) t \<or> contains t s" using Cons.prems by simp
  then show ?case
  proof
    assume "startsWith (c # s) t"
    then obtain y where "c # s = t @ y" using startsWith_append by blast
    then have "match_pat m (c # s) \<noteq> None" using self [of y] by simp
    then show ?thesis by simp
  next
    assume "contains t s"
    then show ?thesis using Cons.IH by simp
  qed
qed

lemma decl_has_literal_match:
  assumes "p = js ''postgresql'' \<or> p = js ''sqlite''" and "contains (provider_decl p) s"
  shows "has_match provider_literal s"
  using assms(2) provider_literal_self [OF assms(1)]
  by (intro contains_has_match [of provider_literal "provider_decl p"]) simp_all


text \<open>
  When the text holds the normalised declaration and the literal pattern matches at one
  place at most, that place is the declaration, and replacing it changes nothing.
\<close>

lemma single_literal_fixed:
  assumes p: "p = js ''postgresql'' \<or> p = js ''sqlite''"
  shows "contains (provider_decl p) s \<Longrightarrow> occurrences provider_literal s \<le> 1 \<Longrightarrow>
         replace_first provider_literal (provider_decl p) s = s"
proof (induction s)
  case Nil
  then show ?case by (simp add: provider_decl_def js_def)
next
  case (Cons c s)
  show ?case
  proof (cases "match_pat provider_literal (c # s)")
    case None
    have "\<not> startsWith (c # s) (provider_decl p)"
    proof
      assume "startsWith (c # s) (provider_decl p)"
      then obtain y where "c # s = provider_decl p @ y" using startsWith_append by blast
      then show False using provider_literal_self [OF p, of y] None by simp
    qed
    then have "contains (provider_decl p) s" using Cons.prems(1) by simp
    moreover have "occurrences provider_literal s \<le> 1" using Cons.prems(2) None by simp
    ultimately show ?thesis using Cons.IH None by simp
  next
    case (Some x)
    then have "occurrences provider_literal s = 0" using Cons.prems(2) by simp
    then have "\<not> has_match provider_literal s" by (simp add: occurrences_0)
    then have "\<not> contains (provider_decl p) s" using decl_has_literal_match [OF p] by blast
    then have "startsWith (c # s) (provider_decl p)" using Cons.prems(1) by simp
    then obtain y where y: "c # s = provider_decl p @ y" using startsWith_append by blast
    then have "x = y" using provider_literal_self [OF p, of y] Some by simp
    then have "replace_first provider_literal (provider_decl p) (c # s) = provider_decl p @ y"
      using replace_first_match [OF Some] by simp
    then show ?thesis using y by simp
  qed
qed


lemma postgresql_decl_survives_directUrl:
  assumes "contains (provider_decl (js ''postgresql'')) s"
  shows "contains (provider_decl (js ''postgresql'')) (replace_first directUrl_field directUrl_decl s)"
  using assms unfolding provider_decl_postgresql_eq
  by (intro replace_first_keeps_text)
    (simp_all add: directUrl_field_def directUrl_decl_def pat_chars_def js_def is_space_def)








lemma generate_postgresql_has_decl:
  assumes "has_match provider_placeholder s \<or> has_match provider_literal s"
  shows "contains (provider_decl (js ''postgresql'')) (generate s (js ''postgresql''))"
proof -
  let ?d = "provider_decl (js ''postgresql'')"
  let ?s1 = "replace_first provider_placeholder ?d s"
  have p: "js ''postgresql'' = js ''postgresql'' \<or> js ''postgresql'' = js ''sqlite''" by simp
  have "has_match provider_literal ?s1"
  proof (cases "has_match provider_placeholder s")
    case True
    then have "contains ?d ?s1" by (rule replace_first_contains)
    then show ?thesis using decl_has_literal_match [OF p] by blast
  next
    case False
    then show ?thesis using assms by (simp add: replace_first_no_match)
  qed
  then have "contains ?d (replace_first provider_literal ?d ?s1)"
    by (rule replace_first_contains)
  then have "contains ?d (replace_first directUrl_field directUrl_decl
      (replace_first provider_literal ?d ?s1))"
    by (rule postgresql_decl_survives_directUrl)
  then show ?thesis by (simp add: generate_def)
qed

section \<open>Removing the directUrl lines\<close>

text \<open>
  The embedded run removes the \<open>directUrl\<close> lines after it has rewritten the provider
  declaration. The lemmas of this section show that the two steps can be exchanged when
  the removal joins no text into a new declaration, and what the removal then leaves.
\<close>

lemma directUrl_line_eq:
  "directUrl_line =
     Lit (10 # []) # [Ws, Lit (js ''directUrl''), Ws, Lit (js ''=''), Ws,
       Lit (js ''env(\"DIRECT_URL\")'')]"
  by (simp add: directUrl_line_def)

lemma directUrl_line_head: "c \<noteq> 10 \<Longrightarrow> match_pat directUrl_line (c # s) = None"
  by (simp add: directUrl_line_def)

lemma directUrl_line_Nil: "match_pat directUrl_line [] = None"
  by (simp add: directUrl_line_def)

lemma directUrl_line_shorter:
  "match_pat directUrl_line t = Some y \<Longrightarrow> length y < length t"
  unfolding directUrl_line_eq by (rule match_pat_shorter)

lemma removal_match:
  "match_pat directUrl_line (c # s) = Some y \<Longrightarrow>
   replace_all directUrl_line [] (c # s) = replace_all directUrl_line [] y"
  using directUrl_line_shorter [of "c # s" y] by simp

lemma removal_no_match:
  "match_pat directUrl_line (c # s) = None \<Longrightarrow>
   replace_all directUrl_line [] (c # s) = c # replace_all directUrl_line [] s"
  by simp

lemma removal_Nil: "replace_all directUrl_line [] [] = []"
  by (simp add: directUrl_line_Nil)

lemma joins_nothing_match:
  "match_pat directUrl_line (c # s) = Some y \<Longrightarrow>
   joins_nothing directUrl_line q (c # s) = joins_nothing directUrl_line q y"
  using directUrl_line_shorter [of "c # s" y] by simp

lemma joins_nothing_no_match:
  "match_pat directUrl_line (c # s) = None \<Longrightarrow>
   joins_nothing directUrl_line q (c # s) =
     ((match_pat q (c # replace_all directUrl_line [] s) \<noteq> None \<longrightarrow> match_pat q (c # s) \<noteq> None)
      \<and> joins_nothing directUrl_line q s)"
  by simp

lemma removal_literal:
  "10 \<notin> set l \<Longrightarrow> replace_all directUrl_line [] (l @ y) = l @ replace_all directUrl_line [] y"
  by (induction l) (simp_all add: directUrl_line_head removal_no_match del: replace_all.simps)

lemma joins_nothing_literal:
  "10 \<notin> set l \<Longrightarrow> joins_nothing directUrl_line q (l @ y) \<Longrightarrow> joins_nothing directUrl_line q y"
  by (induction l) (simp_all add: directUrl_line_head joins_nothing_no_match del: joins_nothing.simps)

lemma is_space_10: "is_space 10"
  by (simp add: is_space_def)

lemma white_space_then_other:
  "list_all is_space ws \<Longrightarrow> \<not> is_space z \<Longrightarrow> \<not> is_space z' \<Longrightarrow> z \<noteq> z' \<Longrightarrow>
   match_pat (Ws # Lit (z' # l) # p) (ws @ z # t) = None"
  by (induction ws) auto

lemma white_space_then_literal:
  "list_all is_space ws \<Longrightarrow> \<not> is_space z \<Longrightarrow>
   match_pat (Ws # Lit (z # l) # p) (ws @ z # t) = match_pat (Lit (z # l) # p) (z # t)"
proof (induction ws)
  case Nil
  then show ?case by simp
next
  case (Cons c ws)
  then have "c \<noteq> z" by auto
  then show ?case using Cons by (cases "match_pat (Lit (z # l) # p) (z # t)") auto
qed

lemma directUrl_line_white_space:
  assumes "list_all is_space ws" and "\<not> is_space z" and "z \<noteq> 100"
  shows "match_pat directUrl_line (ws @ z # t) = None"
proof (cases ws)
  case Nil
  then show ?thesis using assms(2) is_space_10 by (auto intro: directUrl_line_head)
next
  case (Cons c ws')
  show ?thesis
  proof (cases "c = 10")
    case False
    then show ?thesis using Cons by (simp add: directUrl_line_head)
  next
    case True
    have "match_pat (Ws # Lit (100 # js ''irectUrl'') #
        [Ws, Lit (js ''=''), Ws, Lit (js ''env(\"DIRECT_URL\")'')]) (ws' @ z # t) = None"
      using assms Cons by (intro white_space_then_other) (simp_all add: is_space_def)
    then show ?thesis using Cons True by (simp add: directUrl_line_def js_def)
  qed
qed

lemma removal_white_space:
  "list_all is_space ws \<Longrightarrow> \<not> is_space z \<Longrightarrow> z \<noteq> 100 \<Longrightarrow>
   replace_all directUrl_line [] (ws @ z # t) = ws @ replace_all directUrl_line [] (z # t)"
proof (induction ws)
  case Nil
  then show ?case by simp
next
  case (Cons c ws)
  have "match_pat directUrl_line ((c # ws) @ z # t) = None"
    using Cons.prems by (rule directUrl_line_white_space)
  then show ?case using Cons by (simp add: removal_no_match del: replace_all.simps)
qed

lemma joins_nothing_white_space:
  "list_all is_space ws \<Longrightarrow> \<not> is_space z \<Longrightarrow> z \<noteq> 100 \<Longrightarrow>
   joins_nothing directUrl_line q (ws @ z # t) \<Longrightarrow> joins_nothing directUrl_line q (z # t)"
proof (induction ws)
  case Nil
  then show ?case by simp
next
  case (Cons c ws)
  have "match_pat directUrl_line ((c # ws) @ z # t) = None"
    using Cons.prems(1-3) by (rule directUrl_line_white_space)
  then show ?case using Cons by (simp add: joins_nothing_no_match del: joins_nothing.simps)
qed

inductive_simps matches_Nil_iff: "matches [] w"
inductive_simps matches_Lit_iff: "matches (Lit l # p) w"
inductive_simps matches_Ws_iff: "matches (Ws # p) w"
inductive_simps matches_Alt_iff: "matches (Alt ls # p) w"


lemma provider_placeholder_text:
  assumes "match_pat provider_placeholder t = Some x"
  shows "\<exists>ws1 ws2. list_all is_space ws1 \<and> list_all is_space ws2 \<and>
           t = js ''provider'' @ ws1 @ 61 # ws2 @ js ''env(\"DATABASE_PROVIDER\")'' @ x"
proof -
  obtain w where w: "t = w @ x" "matches provider_placeholder w"
    using match_pat_sound [OF assms] by blast
  from w(2) obtain ws1 ws2 where "list_all is_space ws1" "list_all is_space ws2"
    "w = js ''provider'' @ ws1 @ 61 # ws2 @ js ''env(\"DATABASE_PROVIDER\")''"
    unfolding provider_placeholder_def
    by (auto simp: matches_Nil_iff matches_Lit_iff matches_Ws_iff js_def)
  then show ?thesis using w(1) by auto
qed

lemma provider_literal_text:
  assumes "match_pat provider_literal t = Some x"
  shows "\<exists>ws1 ws2 v. list_all is_space ws1 \<and> list_all is_space ws2 \<and>
           (v = js ''postgresql'' \<or> v = js ''sqlite'') \<and>
           t = js ''provider'' @ ws1 @ 61 # ws2 @ 34 # v @ 34 # x"
proof -
  obtain w where w: "t = w @ x" "matches provider_literal w"
    using match_pat_sound [OF assms] by blast
  from w(2) obtain ws1 ws2 v where "list_all is_space ws1" "list_all is_space ws2"
    "v = js ''postgresql'' \<or> v = js ''sqlite''"
    "w = js ''provider'' @ ws1 @ 61 # ws2 @ 34 # v @ [34]"
    unfolding provider_literal_def
    by (auto simp: matches_Nil_iff matches_Lit_iff matches_Ws_iff matches_Alt_iff js_def)
  then show ?thesis using w(1) by auto
qed


lemma provider_placeholder_on_text:
  "list_all is_space ws1 \<Longrightarrow> list_all is_space ws2 \<Longrightarrow>
   match_pat provider_placeholder
     (js ''provider'' @ ws1 @ 61 # ws2 @ js ''env(\"DATABASE_PROVIDER\")'' @ y) = Some y"
  by (simp add: provider_placeholder_def js_def white_space_then_literal is_space_def)

lemma provider_literal_on_text:
  "list_all is_space ws1 \<Longrightarrow> list_all is_space ws2 \<Longrightarrow>
   v = js ''postgresql'' \<or> v = js ''sqlite'' \<Longrightarrow>
   match_pat provider_literal (js ''provider'' @ ws1 @ 61 # ws2 @ 34 # v @ 34 # y) = Some y"
  by (auto simp: provider_literal_def js_def white_space_then_literal is_space_def)

lemma removal_placeholder_text:
  assumes "list_all is_space ws1" and "list_all is_space ws2"
  shows "replace_all directUrl_line []
           (js ''provider'' @ ws1 @ 61 # ws2 @ js ''env(\"DATABASE_PROVIDER\")'' @ y) =
         js ''provider'' @ ws1 @ 61 # ws2 @ js ''env(\"DATABASE_PROVIDER\")'' @
           replace_all directUrl_line [] y"
proof -
  let ?C = "replace_all directUrl_line []"
  let ?e = "js ''nv(\"DATABASE_PROVIDER\")''"
  have e: "js ''env(\"DATABASE_PROVIDER\")'' = 101 # ?e" by (simp add: js_def)
  have "?C (js ''provider'' @ ws1 @ 61 # ws2 @ 101 # ?e @ y) =
        js ''provider'' @ ?C (ws1 @ 61 # ws2 @ 101 # ?e @ y)"
    by (rule removal_literal) (simp add: js_def)
  also have "?C (ws1 @ 61 # ws2 @ 101 # ?e @ y) = ws1 @ ?C (61 # ws2 @ 101 # ?e @ y)"
    using assms(1) by (rule removal_white_space) (simp_all add: is_space_def)
  also have "?C (61 # ws2 @ 101 # ?e @ y) = 61 # ?C (ws2 @ 101 # ?e @ y)"
    using removal_literal [of "[61]"] by simp
  also have "?C (ws2 @ 101 # ?e @ y) = ws2 @ ?C (101 # ?e @ y)"
    using assms(2) by (rule removal_white_space) (simp_all add: is_space_def)
  also have "?C (101 # ?e @ y) = 101 # ?e @ ?C y"
    using removal_literal [of "101 # ?e" y] by (simp add: js_def)
  finally show ?thesis by (simp add: e)
qed

lemma joins_nothing_placeholder_text:
  assumes "list_all is_space ws1" and "list_all is_space ws2"
    and "joins_nothing directUrl_line q
           (js ''provider'' @ ws1 @ 61 # ws2 @ js ''env(\"DATABASE_PROVIDER\")'' @ y)"
  shows "joins_nothing directUrl_line q y"
proof -
  let ?J = "joins_nothing directUrl_line q"
  let ?e = "js ''nv(\"DATABASE_PROVIDER\")''"
  have e: "js ''env(\"DATABASE_PROVIDER\")'' = 101 # ?e" by (simp add: js_def)
  have "?J (js ''provider'' @ ws1 @ 61 # ws2 @ 101 # ?e @ y)" using assms(3) by (simp add: e)
  then have "?J (ws1 @ 61 # ws2 @ 101 # ?e @ y)"
    by (rule joins_nothing_literal [rotated]) (simp add: js_def)
  then have "?J (61 # ws2 @ 101 # ?e @ y)"
    using assms(1) by (intro joins_nothing_white_space [of ws1]) (simp_all add: is_space_def)
  then have "?J (ws2 @ 101 # ?e @ y)"
    using joins_nothing_literal [of "[61]" q] by simp
  then have "?J (101 # ?e @ y)"
    using assms(2) by (intro joins_nothing_white_space [of ws2]) (simp_all add: is_space_def)
  then show ?thesis
    using joins_nothing_literal [of "101 # ?e" q y] by (simp add: js_def)
qed

lemma removal_literal_text:
  assumes "list_all is_space ws1" and "list_all is_space ws2"
    and "v = js ''postgresql'' \<or> v = js ''sqlite''"
  shows "replace_all directUrl_line [] (js ''provider'' @ ws1 @ 61 # ws2 @ 34 # v @ 34 # y) =
         js ''provider'' @ ws1 @ 61 # ws2 @ 34 # v @ 34 # replace_all directUrl_line [] y"
proof -
  let ?C = "replace_all directUrl_line []"
  have v: "10 \<notin> set (34 # v @ [34])" using assms(3) by (auto simp: js_def)
  have "?C (js ''provider'' @ ws1 @ 61 # ws2 @ 34 # v @ 34 # y) =
        js ''provider'' @ ?C (ws1 @ 61 # ws2 @ 34 # v @ 34 # y)"
    by (rule removal_literal) (simp add: js_def)
  also have "?C (ws1 @ 61 # ws2 @ 34 # v @ 34 # y) = ws1 @ ?C (61 # ws2 @ 34 # v @ 34 # y)"
    using assms(1) by (rule removal_white_space) (simp_all add: is_space_def)
  also have "?C (61 # ws2 @ 34 # v @ 34 # y) = 61 # ?C (ws2 @ 34 # v @ 34 # y)"
    using removal_literal [of "[61]"] by simp
  also have "?C (ws2 @ 34 # v @ 34 # y) = ws2 @ ?C (34 # v @ 34 # y)"
    using assms(2) by (rule removal_white_space) (simp_all add: is_space_def)
  also have "?C (34 # v @ 34 # y) = 34 # v @ 34 # ?C y"
    using removal_literal [OF v, of y] by simp
  finally show ?thesis by simp
qed

lemma joins_nothing_literal_text:
  assumes "list_all is_space ws1" and "list_all is_space ws2"
    and "v = js ''postgresql'' \<or> v = js ''sqlite''"
    and "joins_nothing directUrl_line q (js ''provider'' @ ws1 @ 61 # ws2 @ 34 # v @ 34 # y)"
  shows "joins_nothing directUrl_line q y"
proof -
  let ?J = "joins_nothing directUrl_line q"
  have v: "10 \<notin> set (34 # v @ [34])" using assms(3) by (auto simp: js_def)
  have "?J (ws1 @ 61 # ws2 @ 34 # v @ 34 # y)"
    using assms(4) by (rule joins_nothing_literal [rotated]) (simp add: js_def)
  then have "?J (61 # ws2 @ 34 # v @ 34 # y)"
    using assms(1) by (intro joins_nothing_white_space [of ws1]) (simp_all add: is_space_def)
  then have "?J (ws2 @ 34 # v @ 34 # y)"
    using joins_nothing_literal [of "[61]" q] by simp
  then have "?J (34 # v @ 34 # y)"
    using assms(2) by (intro joins_nothing_white_space [of ws2]) (simp_all add: is_space_def)
  then show ?thesis
    using joins_nothing_literal [OF v, of q y] by simp
qed

text \<open>
  A match of a provider pattern holds no \<open>directUrl\<close> line: removing the lines of the
  text keeps the match, and the condition on joins passes through it.
\<close>

lemma removal_keeps_provider_match:
  assumes "P = provider_placeholder \<or> P = provider_literal" and "match_pat P t = Some x"
  shows "match_pat P (replace_all directUrl_line [] t) = Some (replace_all directUrl_line [] x)"
  using assms(1)
proof
  assume P: "P = provider_placeholder"
  obtain ws1 ws2 where ws: "list_all is_space ws1" "list_all is_space ws2"
    and t: "t = js ''provider'' @ ws1 @ 61 # ws2 @ js ''env(\"DATABASE_PROVIDER\")'' @ x"
    using provider_placeholder_text assms(2) P by blast
  show ?thesis
    unfolding t P removal_placeholder_text [OF ws] by (rule provider_placeholder_on_text [OF ws])
next
  assume P: "P = provider_literal"
  obtain ws1 ws2 v where ws: "list_all is_space ws1" "list_all is_space ws2"
    and v: "v = js ''postgresql'' \<or> v = js ''sqlite''"
    and t: "t = js ''provider'' @ ws1 @ 61 # ws2 @ 34 # v @ 34 # x"
    using provider_literal_text assms(2) P by blast
  show ?thesis
    unfolding t P removal_literal_text [OF ws v] by (rule provider_literal_on_text [OF ws v])
qed

lemma joins_nothing_after_provider_match:
  assumes "P = provider_placeholder \<or> P = provider_literal" and "match_pat P t = Some x"
    and "joins_nothing directUrl_line q t"
  shows "joins_nothing directUrl_line q x"
  using assms(1)
proof
  assume P: "P = provider_placeholder"
  obtain ws1 ws2 where ws: "list_all is_space ws1" "list_all is_space ws2"
    and t: "t = js ''provider'' @ ws1 @ 61 # ws2 @ js ''env(\"DATABASE_PROVIDER\")'' @ x"
    using provider_placeholder_text assms(2) P by blast
  show ?thesis using joins_nothing_placeholder_text [OF ws] assms(3) t by simp
next
  assume P: "P = provider_literal"
  obtain ws1 ws2 v where ws: "list_all is_space ws1" "list_all is_space ws2"
    and v: "v = js ''postgresql'' \<or> v = js ''sqlite''"
    and t: "t = js ''provider'' @ ws1 @ 61 # ws2 @ 34 # v @ 34 # x"
    using provider_literal_text assms(2) P by blast
  show ?thesis using joins_nothing_literal_text [OF ws v] assms(3) t by simp
qed


lemma directUrl_line_replace_first:
  assumes "begins_with 112 114 P"
  shows "match_pat directUrl_line (c # replace_first P (112 # 114 # r) s) =
         map_option (replace_first P (112 # 114 # r)) (match_pat directUrl_line (c # s))"
  unfolding directUrl_line_eq
  by (rule match_pat_Cons_replace_first [OF assms not_is_space_112]) (simp add: safe_pat_def js_def)

lemma begins_with_provider:
  "P = provider_placeholder \<or> P = provider_literal \<Longrightarrow> begins_with 112 114 P"
  using begins_with_patterns by auto

text \<open>
  Removing the \<open>directUrl\<close> lines and replacing the first provider declaration can be
  done in either order, when the removal joins no text into a new declaration.
\<close>

lemma removal_replace_first_commute:
  assumes P: "P = provider_placeholder \<or> P = provider_literal"
    and r: "10 \<notin> set r"
  shows "joins_nothing directUrl_line P s \<Longrightarrow>
         replace_all directUrl_line [] (replace_first P (112 # 114 # r) s) =
         replace_first P (112 # 114 # r) (replace_all directUrl_line [] s)"
proof (induction s rule: length_induct)
  case (1 s)
  let ?C = "replace_all directUrl_line []" and ?A = "replace_first P (112 # 114 # r)"
  have bw: "begins_with 112 114 P" using P by (rule begins_with_provider)
  show ?case
  proof (cases s)
    case Nil
    then show ?thesis using begins_with_Nil [OF bw] by (simp add: directUrl_line_Nil)
  next
    case (Cons c s')
    show ?thesis
    proof (cases "match_pat directUrl_line (c # s')")
      case (Some y)
      have c: "c \<noteq> 112" using Some directUrl_line_head [of c s'] by auto
      have len: "length y < length s" using directUrl_line_shorter [OF Some] Cons by simp
      have jy: "joins_nothing directUrl_line P y"
        using "1.prems" Cons joins_nothing_match [OF Some] by simp
      have A: "?A (c # s') = c # ?A s'" using bw c by (rule replace_first_head)
      have "match_pat directUrl_line (c # ?A s') = Some (?A y)"
        using directUrl_line_replace_first [OF bw, of c r s'] Some by simp
      then have "?C (c # ?A s') = ?C (?A y)" by (rule removal_match)
      also have "\<dots> = ?A (?C y)" using "1.IH" len jy by blast
      also have "?C y = ?C (c # s')" using removal_match [OF Some] by simp
      finally show ?thesis using A Cons by simp
    next
      case None
      have Cs: "?C (c # s') = c # ?C s'" using None by (rule removal_no_match)
      have j: "match_pat P (c # ?C s') \<noteq> None \<longrightarrow> match_pat P (c # s') \<noteq> None"
        and js': "joins_nothing directUrl_line P s'"
        using "1.prems" Cons joins_nothing_no_match [OF None] by simp_all
      show ?thesis
      proof (cases "match_pat P (c # s')")
        case (Some x)
        have "?A (c # s') = (112 # 114 # r) @ x" using Some by (rule replace_first_match)
        moreover have "?C ((112 # 114 # r) @ x) = (112 # 114 # r) @ ?C x"
          using r by (intro removal_literal) simp
        moreover have "match_pat P (c # ?C s') = Some (?C x)"
          using removal_keeps_provider_match [OF P Some] Cs by simp
        then have "?A (c # ?C s') = (112 # 114 # r) @ ?C x" by (rule replace_first_match)
        ultimately show ?thesis using Cons Cs by simp
      next
        case None
        note nP = None
        have A: "?A (c # s') = c # ?A s'" using nP by simp
        have "match_pat directUrl_line (c # ?A s') = None"
          using directUrl_line_replace_first [OF bw, of c r s'] \<open>match_pat directUrl_line (c # s') = None\<close>
          by simp
        then have "?C (c # ?A s') = c # ?C (?A s')" by (rule removal_no_match)
        also have "?C (?A s') = ?A (?C s')" using "1.IH" js' Cons by simp
        finally have l: "?C (?A (c # s')) = c # ?A (?C s')" using A by simp
        have "match_pat P (c # ?C s') = None" using j nP by auto
        then have "?A (c # ?C s') = c # ?A (?C s')" by simp
        then show ?thesis using l Cons Cs by simp
      qed
    qed
  qed
qed

text \<open>The condition on joins is kept by the replacement of the first provider declaration.\<close>

lemma joins_nothing_replace_first:
  assumes P: "P = provider_placeholder \<or> P = provider_literal"
    and r: "10 \<notin> set r"
    and safe: "safe_pat 112 114 (Lit l # q)"
    and through: "\<And>x. joins_nothing directUrl_line (Lit (c0 # l) # q) x \<Longrightarrow>
                      joins_nothing directUrl_line (Lit (c0 # l) # q) (112 # 114 # r @ x)"
  shows "joins_nothing directUrl_line (Lit (c0 # l) # q) s \<Longrightarrow>
         joins_nothing directUrl_line P s \<Longrightarrow>
         joins_nothing directUrl_line (Lit (c0 # l) # q) (replace_first P (112 # 114 # r) s)"
proof (induction s rule: length_induct)
  case (1 s)
  let ?C = "replace_all directUrl_line []" and ?A = "replace_first P (112 # 114 # r)"
  let ?Q = "Lit (c0 # l) # q"
  have bw: "begins_with 112 114 P" using P by (rule begins_with_provider)
  have tr: "match_pat ?Q (c # ?A t) = map_option ?A (match_pat ?Q (c # t))" for c t
    by (rule match_pat_Cons_replace_first [OF bw not_is_space_112 safe])
  show ?case
  proof (cases s)
    case Nil
    then show ?thesis using begins_with_Nil [OF bw] by simp
  next
    case (Cons c s')
    show ?thesis
    proof (cases "match_pat directUrl_line (c # s')")
      case (Some y)
      have c: "c \<noteq> 112" using Some directUrl_line_head [of c s'] by auto
      have len: "length y < length s" using directUrl_line_shorter [OF Some] Cons by simp
      have jy: "joins_nothing directUrl_line ?Q y" "joins_nothing directUrl_line P y"
        using "1.prems" Cons joins_nothing_match [OF Some] by simp_all
      have A: "?A (c # s') = c # ?A s'" using bw c by (rule replace_first_head)
      have "match_pat directUrl_line (c # ?A s') = Some (?A y)"
        using directUrl_line_replace_first [OF bw, of c r s'] Some by simp
      then have "joins_nothing directUrl_line ?Q (c # ?A s') =
                 joins_nothing directUrl_line ?Q (?A y)"
        by (rule joins_nothing_match)
      moreover have "joins_nothing directUrl_line ?Q (?A y)" using "1.IH" len jy by blast
      ultimately show ?thesis using A Cons by simp
    next
      case None
      have jQ: "match_pat ?Q (c # ?C s') \<noteq> None \<longrightarrow> match_pat ?Q (c # s') \<noteq> None"
        and jQ': "joins_nothing directUrl_line ?Q s'"
        and jP': "joins_nothing directUrl_line P s'"
        using "1.prems" Cons joins_nothing_no_match [OF None] by simp_all
      show ?thesis
      proof (cases "match_pat P (c # s')")
        case (Some x)
        have "?A (c # s') = 112 # 114 # r @ x" using replace_first_match [OF Some] by simp
        moreover have "joins_nothing directUrl_line ?Q x"
          using P Some "1.prems"(1) Cons joins_nothing_after_provider_match by blast
        ultimately show ?thesis using through Cons by simp
      next
        case None
        note nP = None
        have A: "?A (c # s') = c # ?A s'" using nP by simp
        have nD: "match_pat directUrl_line (c # ?A s') = None"
          using directUrl_line_replace_first [OF bw, of c r s'] \<open>match_pat directUrl_line (c # s') = None\<close>
          by simp
        have com: "?C (?A s') = ?A (?C s')"
          using jP' by (rule removal_replace_first_commute [OF P r])
        have "match_pat ?Q (c # s') \<noteq> None" if "match_pat ?Q (c # ?C (?A s')) \<noteq> None"
        proof -
          have "match_pat ?Q (c # ?C s') \<noteq> None" using that tr [of c "?C s'"] com by auto
          then show ?thesis using jQ by simp
        qed
        then have "match_pat ?Q (c # ?C (?A s')) \<noteq> None \<longrightarrow> match_pat ?Q (c # ?A s') \<noteq> None"
          using tr [of c s'] by auto
        moreover have "joins_nothing directUrl_line ?Q (?A s')"
          using "1.IH" jQ' jP' Cons by simp
        ultimately show ?thesis using A Cons joins_nothing_no_match [OF nD, of ?Q] by simp
      qed
    qed
  qed
qed

text \<open>When nothing is joined, the removal creates no match and does not raise a count.\<close>

lemma occurrences_append: "occurrences p x \<le> occurrences p (w @ x)"
  by (induction w) simp_all

lemma occurrences_suffix: "suffix x t \<Longrightarrow> occurrences p x \<le> occurrences p t"
  by (auto simp: suffix_def occurrences_append)

lemma removal_occurrences:
  "joins_nothing directUrl_line p s \<Longrightarrow>
   occurrences p (replace_all directUrl_line [] s) \<le> occurrences p s"
proof (induction s rule: length_induct)
  case (1 s)
  let ?C = "replace_all directUrl_line []"
  show ?case
  proof (cases s)
    case Nil
    then show ?thesis by (simp add: directUrl_line_Nil)
  next
    case (Cons c s')
    show ?thesis
    proof (cases "match_pat directUrl_line (c # s')")
      case (Some y)
      have len: "length y < length s" using directUrl_line_shorter [OF Some] Cons by simp
      have "joins_nothing directUrl_line p y"
        using "1.prems" Cons joins_nothing_match [OF Some] by simp
      then have "occurrences p (?C y) \<le> occurrences p y" using "1.IH" len by blast
      also have "\<dots> \<le> occurrences p (c # s')"
        using match_pat_suffix [OF Some] by (rule occurrences_suffix)
      finally show ?thesis using removal_match [OF Some] Cons by simp
    next
      case None
      have j: "match_pat p (c # ?C s') \<noteq> None \<longrightarrow> match_pat p (c # s') \<noteq> None"
        and j': "joins_nothing directUrl_line p s'"
        using "1.prems" Cons joins_nothing_no_match [OF None] by simp_all
      have "occurrences p (?C s') \<le> occurrences p s'" using "1.IH" j' Cons by simp
      then have "occurrences p (c # ?C s') \<le> occurrences p (c # s')" using j by auto
      then show ?thesis using removal_no_match [OF None] Cons by simp
    qed
  qed
qed

lemma removal_leaves_none:
  "none_outside directUrl_line p s \<Longrightarrow> joins_nothing directUrl_line p s \<Longrightarrow>
   \<not> has_match p (replace_all directUrl_line [] s)"
proof (induction s rule: length_induct)
  case (1 s)
  let ?C = "replace_all directUrl_line []"
  show ?case
  proof (cases s)
    case Nil
    then show ?thesis using "1.prems"(1) by (simp add: directUrl_line_Nil)
  next
    case (Cons c s')
    show ?thesis
    proof (cases "match_pat directUrl_line (c # s')")
      case (Some y)
      have len: "length y < length s" using directUrl_line_shorter [OF Some] Cons by simp
      have len': "length y < length (c # s')" using directUrl_line_shorter [OF Some] by simp
      have "joins_nothing directUrl_line p y"
        using "1.prems" Cons joins_nothing_match [OF Some] by simp
      moreover have "none_outside directUrl_line p y"
        using "1.prems"(1) Cons Some len' by simp
      ultimately have "\<not> has_match p (?C y)" using "1.IH" len by blast
      then show ?thesis using removal_match [OF Some] Cons by simp
    next
      case None
      have j: "match_pat p (c # ?C s') \<noteq> None \<longrightarrow> match_pat p (c # s') \<noteq> None"
        and j': "joins_nothing directUrl_line p s'"
        using "1.prems" Cons joins_nothing_no_match [OF None] by simp_all
      have o: "match_pat p (c # s') = None" and o': "none_outside directUrl_line p s'"
        using "1.prems"(1) Cons None by simp_all
      have "\<not> has_match p (?C s')" using "1.IH" j' o' Cons by simp
      moreover have "match_pat p (c # ?C s') = None" using j o by auto
      ultimately have "\<not> has_match p (c # ?C s')" by simp
      then show ?thesis using removal_no_match [OF None] Cons by simp
    qed
  qed
qed

lemma none_outside_self: "none_outside directUrl_line directUrl_line s"
proof (induction s rule: length_induct)
  case (1 s)
  show ?case
  proof (cases s)
    case Nil
    then show ?thesis by (simp add: directUrl_line_Nil)
  next
    case (Cons c s')
    show ?thesis
    proof (cases "match_pat directUrl_line (c # s')")
      case (Some y)
      have len: "length y < length (c # s')" using directUrl_line_shorter [OF Some] by simp
      then show ?thesis using "1.IH" Cons Some by simp
    next
      case None
      then show ?thesis using "1.IH" Cons by simp
    qed
  qed
qed





lemma joins_nothing_step:
  "c \<noteq> 10 \<Longrightarrow>
   joins_nothing directUrl_line q (c # s) =
     ((match_pat q (c # replace_all directUrl_line [] s) \<noteq> None \<longrightarrow> match_pat q (c # s) \<noteq> None)
      \<and> joins_nothing directUrl_line q s)"
  by (simp add: directUrl_line_head joins_nothing_no_match del: joins_nothing.simps)

lemma removal_step:
  "c \<noteq> 10 \<Longrightarrow> replace_all directUrl_line [] (c # s) = c # replace_all directUrl_line [] s"
  by (simp add: directUrl_line_head)

lemma sqlite_decl_no_newline: "10 \<notin> set (js ''ovider = \"sqlite\"'')"
  by (simp add: js_def)

lemma joins_nothing_through_decl:
  "joins_nothing directUrl_line provider_literal x \<Longrightarrow>
   joins_nothing directUrl_line provider_literal (112 # 114 # js ''ovider = \"sqlite\"'' @ x)"
  by (simp add: joins_nothing_step removal_step js_def provider_literal_def is_space_def
      del: joins_nothing.simps replace_all.simps)

lemma removal_placeholder_commute:
  assumes "joins_nothing directUrl_line provider_placeholder s"
  shows "replace_all directUrl_line []
           (replace_first provider_placeholder (provider_decl (js ''sqlite'')) s) =
         replace_first provider_placeholder (provider_decl (js ''sqlite''))
           (replace_all directUrl_line [] s)"
  unfolding provider_decl_sqlite_eq
  using assms by (intro removal_replace_first_commute sqlite_decl_no_newline) simp_all

lemma removal_literal_commute:
  assumes "joins_nothing directUrl_line provider_literal s"
  shows "replace_all directUrl_line []
           (replace_first provider_literal (provider_decl (js ''sqlite'')) s) =
         replace_first provider_literal (provider_decl (js ''sqlite''))
           (replace_all directUrl_line [] s)"
  unfolding provider_decl_sqlite_eq
  using assms by (intro removal_replace_first_commute sqlite_decl_no_newline) simp_all

lemma joins_nothing_placeholder_replaced:
  assumes "joins_nothing directUrl_line provider_literal s"
    and "joins_nothing directUrl_line provider_placeholder s"
  shows "joins_nothing directUrl_line provider_literal
           (replace_first provider_placeholder (provider_decl (js ''sqlite'')) s)"
proof -
  have "joins_nothing directUrl_line
          (Lit (112 # js ''rovider'') #
            [Ws, Lit (js ''=''), Ws, Lit (js ''\"''), Alt [js ''postgresql'', js ''sqlite''],
             Lit (js ''\"'')])
          (replace_first provider_placeholder (112 # 114 # js ''ovider = \"sqlite\"'') s)"
  proof (rule joins_nothing_replace_first [OF _ sqlite_decl_no_newline])
    show "provider_placeholder = provider_placeholder \<or> provider_placeholder = provider_literal"
      by simp
    show "safe_pat 112 114 (Lit (js ''rovider'') #
            [Ws, Lit (js ''=''), Ws, Lit (js ''\"''), Alt [js ''postgresql'', js ''sqlite''],
             Lit (js ''\"'')])"
      by (simp add: safe_pat_def js_def)
  qed (use assms joins_nothing_through_decl in \<open>simp_all add: provider_literal_eq [symmetric]\<close>)
  then show ?thesis by (simp add: provider_literal_eq [symmetric] provider_decl_sqlite_eq)
qed

text \<open>The embedded run, with the removal of the lines done first.\<close>

lemma generate_sqlite_removal_first:
  assumes "joins_nothing directUrl_line provider_placeholder s"
    and "joins_nothing directUrl_line provider_literal s"
  shows "generate s (js ''sqlite'') =
         replace_first provider_literal (provider_decl (js ''sqlite''))
           (replace_first provider_placeholder (provider_decl (js ''sqlite''))
             (replace_all directUrl_line [] s))"
proof -
  let ?d = "provider_decl (js ''sqlite'')"
  have "generate s (js ''sqlite'') =
        replace_all directUrl_line []
          (replace_first provider_literal ?d (replace_first provider_placeholder ?d s))"
    using js_postgresql_ne_sqlite by (simp add: generate_def)
  also have "\<dots> = replace_first provider_literal ?d
      (replace_all directUrl_line [] (replace_first provider_placeholder ?d s))"
    using assms by (intro removal_literal_commute joins_nothing_placeholder_replaced)
  also have "\<dots> = replace_first provider_literal ?d
      (replace_first provider_placeholder ?d (replace_all directUrl_line [] s))"
    using assms(1) by (simp add: removal_placeholder_commute)
  finally show ?thesis .
qed

lemma directUrl_line_not_in_decl:
  "has_match directUrl_line (112 # 114 # js ''ovider = \"sqlite\"'' @ x) \<Longrightarrow>
   has_match directUrl_line x"
  by (simp add: directUrl_line_def js_def)

lemma provider_replacement_no_new_line:
  assumes "P = provider_placeholder \<or> P = provider_literal"
    and "has_match directUrl_line (replace_first P (provider_decl (js ''sqlite'')) s)"
  shows "has_match directUrl_line s"
proof -
  have bw: "begins_with 112 114 P" using assms(1) by (rule begins_with_provider)
  have "has_match (Lit (10 # []) # [Ws, Lit (js ''directUrl''), Ws, Lit (js ''=''), Ws,
       Lit (js ''env(\"DIRECT_URL\")'')]) s"
  proof (rule replace_first_no_new_match [OF bw not_is_space_112])
    show "safe_pat 112 114 (Lit [] # [Ws, Lit (js ''directUrl''), Ws, Lit (js ''=''), Ws,
       Lit (js ''env(\"DIRECT_URL\")'')])"
      by (simp add: safe_pat_def js_def)
  qed (use assms(2) directUrl_line_not_in_decl in
      \<open>simp_all add: directUrl_line_eq [symmetric] provider_decl_sqlite_eq\<close>)
  then show ?thesis by (simp add: directUrl_line_eq [symmetric])
qed

lemma embedded_run_twice:
  assumes one: "occurrences provider_placeholder s \<le> 1"
    and jP: "joins_nothing directUrl_line provider_placeholder s"
    and jL: "joins_nothing directUrl_line provider_literal s"
    and jD: "joins_nothing directUrl_line directUrl_line s"
  shows "generate (generate s (js ''sqlite'')) (js ''sqlite'') = generate s (js ''sqlite'')"
proof -
  let ?d = "provider_decl (js ''sqlite'')"
  let ?A = "replace_first provider_placeholder ?d"
  let ?B = "replace_first provider_literal ?d"
  let ?C = "replace_all directUrl_line []"
  let ?v = "generate s (js ''sqlite'')"
  have p: "js ''sqlite'' = js ''postgresql'' \<or> js ''sqlite'' = js ''sqlite''" by simp
  have g: "generate t (js ''sqlite'') = ?C (?B (?A t))" for t
    using js_postgresql_ne_sqlite by (simp add: generate_def)
  have v: "?v = ?B (?A (?C s))" using jP jL by (rule generate_sqlite_removal_first)
  have "occurrences provider_placeholder (?C s) \<le> occurrences provider_placeholder s"
    using jP by (rule removal_occurrences)
  then have one': "occurrences provider_placeholder (?C s) \<le> 1" using one by simp
  have "\<not> has_match directUrl_line (?C s)"
    using none_outside_self jD by (rule removal_leaves_none)
  then have "\<not> has_match directUrl_line (?B (?A (?C s)))"
    using provider_replacement_no_new_line by blast
  then have c: "?C ?v = ?v" using v by (simp add: replace_all_no_match)
  have "?B (?A ?v) = ?v"
    unfolding v using provider_replacement_idem [OF p one'] .
  then show ?thesis using c by (simp only: g [of ?v])
qed

text \<open>Rules that evaluate the scans on a given text, skipping the characters that start no match.\<close>

lemma directUrl_line_at_newline:
  "match_pat directUrl_line (10 # s) =
   match_pat [Ws, Lit (js ''directUrl''), Ws, Lit (js ''=''), Ws, Lit (js ''env(\"DIRECT_URL\")'')] s"
  by (simp add: directUrl_line_def)

lemma removal_newline:
  "replace_all directUrl_line [] (10 # s) =
     (case match_pat directUrl_line (10 # s) of
        None \<Rightarrow> 10 # replace_all directUrl_line [] s
      | Some rest \<Rightarrow> replace_all directUrl_line [] rest)"
  using directUrl_line_shorter [of "10 # s"] by (auto split: option.splits)

lemma joins_nothing_newline:
  "joins_nothing directUrl_line q (10 # s) =
     (case match_pat directUrl_line (10 # s) of
        None \<Rightarrow>
          (match_pat q (10 # replace_all directUrl_line [] s) \<noteq> None \<longrightarrow>
             match_pat q (10 # s) \<noteq> None)
          \<and> joins_nothing directUrl_line q s
      | Some rest \<Rightarrow> joins_nothing directUrl_line q rest)"
  using directUrl_line_shorter [of "10 # s"] by (auto split: option.splits)

lemma joins_nothing_head:
  "c \<noteq> 10 \<Longrightarrow> c \<noteq> c0 \<Longrightarrow>
   joins_nothing directUrl_line (Lit (c0 # l) # p) (c # s) =
   joins_nothing directUrl_line (Lit (c0 # l) # p) s"
  by (simp add: joins_nothing_step del: joins_nothing.simps)

lemma joins_nothing_first:
  "c0 \<noteq> 10 \<Longrightarrow>
   joins_nothing directUrl_line (Lit (c0 # l) # p) (c0 # s) =
     ((match_pat (Lit l # p) (replace_all directUrl_line [] s) \<noteq> None \<longrightarrow>
         match_pat (Lit l # p) s \<noteq> None)
      \<and> joins_nothing directUrl_line (Lit (c0 # l) # p) s)"
  by (simp add: joins_nothing_step del: joins_nothing.simps)

lemma none_outside_newline:
  "none_outside directUrl_line q (10 # s) =
     (case match_pat directUrl_line (10 # s) of
        None \<Rightarrow> match_pat q (10 # s) = None \<and> none_outside directUrl_line q s
      | Some rest \<Rightarrow> none_outside directUrl_line q rest)"
  using directUrl_line_shorter [of "10 # s"] by (auto split: option.splits)

lemma none_outside_head:
  "c \<noteq> 10 \<Longrightarrow> c \<noteq> c0 \<Longrightarrow>
   none_outside directUrl_line (Lit (c0 # l) # p) (c # s) =
   none_outside directUrl_line (Lit (c0 # l) # p) s"
  by (simp add: directUrl_line_head)

lemma none_outside_first:
  "c0 \<noteq> 10 \<Longrightarrow>
   none_outside directUrl_line (Lit (c0 # l) # p) (c0 # s) =
     (match_pat (Lit l # p) s = None \<and> none_outside directUrl_line (Lit (c0 # l) # p) s)"
  by (simp add: directUrl_line_head)

lemma joins_nothing_self_head:
  "c \<noteq> 10 \<Longrightarrow>
   joins_nothing directUrl_line directUrl_line (c # s) =
   joins_nothing directUrl_line directUrl_line s"
  by (simp add: joins_nothing_step directUrl_line_head del: joins_nothing.simps)

lemmas scan_simps = joins_nothing_self_head removal_Nil directUrl_line_Nil joins_nothing_newline joins_nothing_head joins_nothing_first
  none_outside_newline none_outside_head none_outside_first removal_newline removal_step
  directUrl_line_at_newline provider_placeholder_eq provider_literal_eq directUrl_field_eq
  js_def is_space_def

lemma example_template_joins:
  "joins_nothing directUrl_line provider_placeholder example_template"
  "joins_nothing directUrl_line provider_literal example_template"
  "joins_nothing directUrl_line directUrl_field example_template"
  "none_outside directUrl_line directUrl_field example_template"
  by (simp_all add: example_template_def scan_simps
      del: joins_nothing.simps(2) none_outside.simps(2) replace_all.simps)

lemma example_template_joins2:
  "joins_nothing directUrl_line directUrl_line example_template"
  by (simp add: example_template_def scan_simps
      del: joins_nothing.simps(2) none_outside.simps(2) replace_all.simps)
















section \<open>SchemaGenerator: theorems\<close>

lemmas eval_defs = generate_def provider_decl_def directUrl_decl_def provider_placeholder_def
  provider_literal_def directUrl_field_def directUrl_line_def js_def is_space_def

lemma example_template_matches:
  "has_match provider_placeholder example_template"
  "has_match directUrl_line example_template"
  "has_match directUrl_field example_template"
  "occurrences provider_placeholder example_template = 1"
  by (simp_all add: example_template_def eval_defs)








text \<open>
  None of the conditions of the statement that follows can be dropped: each of the next
  three texts meets all of them but one, and misses a conclusion. With three
  placeholders the round trip leaves one. A \<open>directUrl\<close> field that follows other text
  on its line is not part of a \<open>directUrl\<close> line, and the embedded run keeps it. And
  removing a \<open>directUrl\<close> line that splits a field joins the two halves into a field.
\<close>

lemma three_placeholders_leave_one:
  "has_match provider_placeholder three_placeholders
   \<and> occurrences provider_placeholder three_placeholders = 3
   \<and> joins_nothing directUrl_line provider_placeholder three_placeholders
   \<and> joins_nothing directUrl_line provider_literal three_placeholders
   \<and> joins_nothing directUrl_line directUrl_field three_placeholders
   \<and> none_outside directUrl_line directUrl_field three_placeholders
   \<and> has_match provider_placeholder
       (generate (generate three_placeholders (js ''sqlite'')) (js ''postgresql''))"
proof -
  have scan:
    "joins_nothing directUrl_line provider_placeholder three_placeholders"
    "joins_nothing directUrl_line provider_literal three_placeholders"
    "joins_nothing directUrl_line directUrl_field three_placeholders"
    "none_outside directUrl_line directUrl_field three_placeholders"
    by (simp_all add: three_placeholders_def scan_simps
        del: joins_nothing.simps(2) none_outside.simps(2) replace_all.simps)
  have run:
    "has_match provider_placeholder three_placeholders"
    "occurrences provider_placeholder three_placeholders = 3"
    "has_match provider_placeholder
      (generate (generate three_placeholders (js ''sqlite'')) (js ''postgresql''))"
    by (simp_all add: three_placeholders_def eval_defs)
  show ?thesis using scan run by simp
qed

lemma field_after_text_kept:
  "has_match provider_placeholder field_after_text
   \<and> occurrences provider_placeholder field_after_text = 1
   \<and> joins_nothing directUrl_line provider_placeholder field_after_text
   \<and> joins_nothing directUrl_line provider_literal field_after_text
   \<and> joins_nothing directUrl_line directUrl_field field_after_text
   \<and> \<not> none_outside directUrl_line directUrl_field field_after_text
   \<and> has_match directUrl_field (generate field_after_text (js ''sqlite''))"
proof -
  have scan:
    "joins_nothing directUrl_line provider_placeholder field_after_text"
    "joins_nothing directUrl_line provider_literal field_after_text"
    "joins_nothing directUrl_line directUrl_field field_after_text"
    "\<not> none_outside directUrl_line directUrl_field field_after_text"
    by (simp_all add: field_after_text_def scan_simps
        del: joins_nothing.simps(2) none_outside.simps(2) replace_all.simps)
  have run:
    "has_match provider_placeholder field_after_text"
    "occurrences provider_placeholder field_after_text = 1"
    "has_match directUrl_field (generate field_after_text (js ''sqlite''))"
    by (simp_all add: field_after_text_def eval_defs)
  show ?thesis using scan run by simp
qed

lemma split_field_joined:
  "has_match provider_placeholder split_field
   \<and> occurrences provider_placeholder split_field = 1
   \<and> joins_nothing directUrl_line provider_placeholder split_field
   \<and> joins_nothing directUrl_line provider_literal split_field
   \<and> \<not> joins_nothing directUrl_line directUrl_field split_field
   \<and> none_outside directUrl_line directUrl_field split_field
   \<and> has_match directUrl_field (generate split_field (js ''sqlite''))"
proof -
  have scan:
    "joins_nothing directUrl_line provider_placeholder split_field"
    "joins_nothing directUrl_line provider_literal split_field"
    "\<not> joins_nothing directUrl_line directUrl_field split_field"
    "none_outside directUrl_line directUrl_field split_field"
    by (simp_all add: split_field_def scan_simps
        del: joins_nothing.simps(2) none_outside.simps(2) replace_all.simps)
  have run:
    "has_match provider_placeholder split_field"
    "occurrences provider_placeholder split_field = 1"
    "has_match directUrl_field (generate split_field (js ''sqlite''))"
    by (simp_all add: split_field_def eval_defs)
  show ?thesis using scan run by simp
qed



text \<open>
  Idempotence for every text fails on a text with two placeholders: each run replaces
  the first placeholder only, so the second run changes the output of the first.
\<close>

theorem generate_twice_counterexample:
  "generate two_placeholders (js ''sqlite'') =
     js ''provider = \"sqlite\"\<newline>provider = env(\"DATABASE_PROVIDER\")''
   \<and> generate (generate two_placeholders (js ''sqlite'')) (js ''sqlite'') =
     js ''provider = \"sqlite\"\<newline>provider = \"sqlite\"''
   \<and> generate (generate two_placeholders (js ''sqlite'')) (js ''sqlite'') \<noteq>
     generate two_placeholders (js ''sqlite'')"
  by (simp add: two_placeholders_def eval_defs)

text \<open>
  For the embedded provider a second condition is needed: removing a \<open>directUrl\<close> line
  can join the text around it into a literal provider declaration, a placeholder or a
  \<open>directUrl\<close> line that the first run did not see, and that the second run rewrites.
  Each of the next three texts has no placeholder and meets two of the three conditions
  on joins, and the second run changes the output of the first.
\<close>

lemma removal_joins_text:
  "occurrences provider_placeholder split_declaration = 0
   \<and> joins_nothing directUrl_line provider_placeholder split_declaration
   \<and> \<not> joins_nothing directUrl_line provider_literal split_declaration
   \<and> joins_nothing directUrl_line directUrl_line split_declaration
   \<and> generate split_declaration (js ''sqlite'') = js ''provider =  \"sqlite\"''
   \<and> generate (generate split_declaration (js ''sqlite'')) (js ''sqlite'') =
       js ''provider = \"sqlite\"''
   \<and> generate (generate split_declaration (js ''sqlite'')) (js ''sqlite'') \<noteq>
       generate split_declaration (js ''sqlite'')"
proof -
  have scan:
    "joins_nothing directUrl_line provider_placeholder split_declaration"
    "\<not> joins_nothing directUrl_line provider_literal split_declaration"
    "joins_nothing directUrl_line directUrl_line split_declaration"
    by (simp_all add: split_declaration_def scan_simps
        del: joins_nothing.simps(2) none_outside.simps(2) replace_all.simps)
  have run:
    "occurrences provider_placeholder split_declaration = 0"
    "generate split_declaration (js ''sqlite'') = js ''provider =  \"sqlite\"''"
    "generate (generate split_declaration (js ''sqlite'')) (js ''sqlite'') =
      js ''provider = \"sqlite\"''"
    "generate (generate split_declaration (js ''sqlite'')) (js ''sqlite'') \<noteq>
      generate split_declaration (js ''sqlite'')"
    by (simp_all add: split_declaration_def eval_defs)
  show ?thesis using scan run by simp
qed

lemma removal_joins_placeholder:
  "occurrences provider_placeholder split_placeholder = 0
   \<and> \<not> joins_nothing directUrl_line provider_placeholder split_placeholder
   \<and> joins_nothing directUrl_line provider_literal split_placeholder
   \<and> joins_nothing directUrl_line directUrl_line split_placeholder
   \<and> generate split_placeholder (js ''sqlite'') = js ''provider = env(\"DATABASE_PROVIDER\")''
   \<and> generate (generate split_placeholder (js ''sqlite'')) (js ''sqlite'') =
       js ''provider = \"sqlite\"''
   \<and> generate (generate split_placeholder (js ''sqlite'')) (js ''sqlite'') \<noteq>
       generate split_placeholder (js ''sqlite'')"
proof -
  have scan:
    "\<not> joins_nothing directUrl_line provider_placeholder split_placeholder"
    "joins_nothing directUrl_line provider_literal split_placeholder"
    "joins_nothing directUrl_line directUrl_line split_placeholder"
    by (simp_all add: split_placeholder_def scan_simps
        del: joins_nothing.simps(2) none_outside.simps(2) replace_all.simps)
  have run:
    "occurrences provider_placeholder split_placeholder = 0"
    "generate split_placeholder (js ''sqlite'') = js ''provider = env(\"DATABASE_PROVIDER\")''"
    "generate (generate split_placeholder (js ''sqlite'')) (js ''sqlite'') =
      js ''provider = \"sqlite\"''"
    "generate (generate split_placeholder (js ''sqlite'')) (js ''sqlite'') \<noteq>
      generate split_placeholder (js ''sqlite'')"
    by (simp_all add: split_placeholder_def eval_defs)
  show ?thesis using scan run by simp
qed

lemma removal_joins_line:
  "occurrences provider_placeholder split_line = 0
   \<and> joins_nothing directUrl_line provider_placeholder split_line
   \<and> joins_nothing directUrl_line provider_literal split_line
   \<and> \<not> joins_nothing directUrl_line directUrl_line split_line
   \<and> generate split_line (js ''sqlite'') = js ''\<newline>directUrl = env(\"DIRECT_URL\")''
   \<and> generate (generate split_line (js ''sqlite'')) (js ''sqlite'') = []
   \<and> generate (generate split_line (js ''sqlite'')) (js ''sqlite'') \<noteq>
       generate split_line (js ''sqlite'')"
proof -
  have scan:
    "joins_nothing directUrl_line provider_placeholder split_line"
    "joins_nothing directUrl_line provider_literal split_line"
    "\<not> joins_nothing directUrl_line directUrl_line split_line"
    by (simp_all add: split_line_def scan_simps
        del: joins_nothing.simps(2) none_outside.simps(2) replace_all.simps)
  have run:
    "occurrences provider_placeholder split_line = 0"
    "generate split_line (js ''sqlite'') = js ''\<newline>directUrl = env(\"DIRECT_URL\")''"
    "generate (generate split_line (js ''sqlite'')) (js ''sqlite'') = []"
    "generate (generate split_line (js ''sqlite'')) (js ''sqlite'') \<noteq>
      generate split_line (js ''sqlite'')"
    by (simp_all add: split_line_def eval_defs)
  show ?thesis using scan run by simp
qed

lemma two_placeholders_join_nothing:
  "occurrences provider_placeholder two_placeholders = 2
   \<and> joins_nothing directUrl_line provider_placeholder two_placeholders
   \<and> joins_nothing directUrl_line provider_literal two_placeholders
   \<and> joins_nothing directUrl_line directUrl_line two_placeholders"
proof -
  have scan:
    "joins_nothing directUrl_line provider_placeholder two_placeholders"
    "joins_nothing directUrl_line provider_literal two_placeholders"
    "joins_nothing directUrl_line directUrl_line two_placeholders"
    by (simp_all add: two_placeholders_def scan_simps
        del: joins_nothing.simps(2) none_outside.simps(2) replace_all.simps)
  have run:
    "occurrences provider_placeholder two_placeholders = 2"
    by (simp_all add: two_placeholders_def eval_defs)
  show ?thesis using scan run by simp
qed

lemma other_templates_scan:
  "occurrences provider_placeholder two_literals \<le> 1"
  "joins_nothing directUrl_line provider_placeholder two_literals"
  "joins_nothing directUrl_line provider_literal two_literals"
  "joins_nothing directUrl_line directUrl_line two_literals"
  "occurrences provider_placeholder no_declaration \<le> 1"
  "joins_nothing directUrl_line provider_placeholder no_declaration"
  "joins_nothing directUrl_line provider_literal no_declaration"
  "joins_nothing directUrl_line directUrl_line no_declaration"
  by (simp_all add: two_literals_def no_declaration_def scan_simps
      del: joins_nothing.simps(2) none_outside.simps(2) replace_all.simps)

text \<open>
  C2 (as amended). \<open>generate (generate T p) p = generate T p\<close> holds for both providers
  on every template in which the placeholder occurs at most once and, for the embedded
  provider, in which the removal of the \<open>directUrl\<close> lines joins no text into a new
  placeholder, literal provider declaration or \<open>directUrl\<close> line. The template may
  hold several literal provider declarations, or none.
\<close>

theorem generate_idempotent:
  assumes "p = js ''postgresql'' \<or> p = js ''sqlite''"
    and "occurrences provider_placeholder T \<le> 1"
    and "p = js ''sqlite'' \<Longrightarrow>
           joins_nothing directUrl_line provider_placeholder T
           \<and> joins_nothing directUrl_line provider_literal T
           \<and> joins_nothing directUrl_line directUrl_line T"
  shows "generate (generate T p) p = generate T p"
  using assms(1)
proof
  assume p: "p = js ''postgresql''"
  then show ?thesis using assms(2) generate_postgresql_idem by simp
next
  assume p: "p = js ''sqlite''"
  then show ?thesis using assms(2,3) embedded_run_twice [of T] by simp
qed

theorem generate_idempotent_witness:
  "generate (generate example_template (js ''sqlite'')) (js ''sqlite'') =
     generate example_template (js ''sqlite'')
   \<and> generate (generate example_template (js ''postgresql'')) (js ''postgresql'') =
     generate example_template (js ''postgresql'')
   \<and> generate (generate two_literals (js ''sqlite'')) (js ''sqlite'') =
     generate two_literals (js ''sqlite'')
   \<and> generate (generate no_declaration (js ''sqlite'')) (js ''sqlite'') =
     generate no_declaration (js ''sqlite'')"
proof -
  have "generate (generate example_template (js ''sqlite'')) (js ''sqlite'') =
     generate example_template (js ''sqlite'')"
    using example_template_matches(4) example_template_joins example_template_joins2
    by (intro generate_idempotent) simp_all
  moreover have "generate (generate example_template (js ''postgresql'')) (js ''postgresql'') =
     generate example_template (js ''postgresql'')"
    using example_template_matches(4) js_postgresql_ne_sqlite
    by (intro generate_idempotent) simp_all
  moreover have "generate (generate two_literals (js ''sqlite'')) (js ''sqlite'') =
     generate two_literals (js ''sqlite'')"
    using other_templates_scan(1-4) by (intro generate_idempotent) simp_all
  moreover have "generate (generate no_declaration (js ''sqlite'')) (js ''sqlite'') =
     generate no_declaration (js ''sqlite'')"
    using other_templates_scan(5-8) by (intro generate_idempotent) simp_all
  ultimately show ?thesis by simp
qed

end
